theory Spec2Isabelle
  imports Main "HOL-Library.Monad_Syntax" "HOL-Library.Signed_Division"
begin

section \<open>The thread table (uthreads.h)\<close>

text \<open>
  The embedding follows \<^verbatim>\<open>uthreads.h\<close> and \<^verbatim>\<open>uthreads.c\<close>. A C \<^verbatim>\<open>int\<close> is an
  \<^typ>\<open>int\<close>; where the C code would overflow a signed integer or index an array out
  of bounds its behaviour is undefined, and the model returns \<open>None\<close> there. Pointers
  to data (\<^verbatim>\<open>void *\<close>) are addresses, \<open>0\<close> being the null pointer; a pointer into
  the thread table is the index of its slot. The stack bytes and the saved stack
  pointer of a thread belong to the context switch, which is assembly, and are left out.
\<close>

definition MAX_THREADS :: nat where
  "MAX_THREADS = 16"

definition INT_MAX :: int where
  "INT_MAX = 2147483647"

definition INT_MIN :: int where
  "INT_MIN = - 2147483648"

datatype tstate = T_UNUSED | T_RUNNABLE | T_RUNNING | T_SLEEPING | T_ZOMBIE

record thread =
  tid :: int
  state :: tstate
  start_routine :: nat
  arg :: nat
  retval :: nat
  joined_tid :: int

record sys =
  threads :: "thread list"
  current_thread :: nat
  next_tid :: int

text \<open>
  What a call has done when control leaves the code of the calling thread: it has
  returned a value, or it has entered \<^verbatim>\<open>thread_schedule()\<close> and will continue at
  the given place when \<^verbatim>\<open>thread_schedule()\<close> returns to it.
\<close>

datatype ('r, 'k) outcome = Return 'r | Suspend 'k

text \<open>
  The loop \<^verbatim>\<open>for (i = lo; i < hi; i++) if (P i) { ...; break; }\<close>: the index at
  which it stops, if any.
\<close>

function for_first :: "(nat \<Rightarrow> bool) \<Rightarrow> nat \<Rightarrow> nat \<Rightarrow> nat option" where
  "for_first P i hi =
     (if i < hi then (if P i then Some i else for_first P (Suc i) hi) else None)"
  by pat_completeness auto
termination
  by (relation "measure (\<lambda>(P, i, hi). hi - i)") auto

declare for_first.simps [simp del]

definition cur :: "sys \<Rightarrow> thread" where
  "cur s = threads s ! current_thread s"

definition set_cur :: "sys \<Rightarrow> (thread \<Rightarrow> thread) \<Rightarrow> sys" where
  "set_cur s f = s\<lparr>threads := (threads s)[current_thread s := f (cur s)]\<rparr>"

subsection \<open>thread_init, thread_create\<close>

definition thread_init :: "sys \<Rightarrow> sys" where
  "thread_init s =
     (let ts = map (\<lambda>t. t\<lparr>tid := 0, state := T_UNUSED, start_routine := 0, arg := 0,
                            retval := 0, joined_tid := - 1\<rparr>) (threads s);
          ts' = ts[0 := (ts ! 0)\<lparr>tid := 0, state := T_RUNNING, joined_tid := - 1\<rparr>]
      in s\<lparr>threads := ts', current_thread := 0, next_tid := 1\<rparr>)"

definition thread_create :: "sys \<Rightarrow> nat \<Rightarrow> nat \<Rightarrow> (sys \<times> int) option" where
  "thread_create s f a =
     (case for_first (\<lambda>i. state (threads s ! i) = T_UNUSED) 0 MAX_THREADS of
        None \<Rightarrow> Some (s, - 1)
      | Some t \<Rightarrow>
          if next_tid s = INT_MAX then None
          else Some (s\<lparr>threads := (threads s)[t := (threads s ! t)
                          \<lparr>tid := next_tid s, state := T_RUNNABLE, start_routine := f,
                           arg := a, retval := 0, joined_tid := - 1\<rparr>],
                        next_tid := next_tid s + 1\<rparr>,
                     next_tid s))"

subsection \<open>The scheduler\<close>

definition find_runnable_thread :: "sys \<Rightarrow> nat option" where
  "find_runnable_thread s =
     (let start_idx = (current_thread s + 1) mod MAX_THREADS in
      case for_first (\<lambda>i. state (threads s ! i) = T_RUNNABLE) start_idx MAX_THREADS of
        Some i \<Rightarrow> Some i
      | None \<Rightarrow>
         (case for_first (\<lambda>i. state (threads s ! i) = T_RUNNABLE) 0 start_idx of
            Some i \<Rightarrow> Some i
          | None \<Rightarrow>
              if state (cur s) = T_RUNNABLE then Some (current_thread s) else None))"

definition thread_schedule :: "sys \<Rightarrow> sys" where
  "thread_schedule s =
     (case find_runnable_thread s of
        None \<Rightarrow> s
      | Some nxt \<Rightarrow>
          let s1 = (if state (cur s) = T_RUNNING
                    then set_cur s (\<lambda>t. t\<lparr>state := T_RUNNABLE\<rparr>) else s);
              ts2 = (threads s1)[nxt := (threads s1 ! nxt)\<lparr>state := T_RUNNING\<rparr>]
          in s1\<lparr>threads := ts2, current_thread := nxt\<rparr>)"

text \<open>Whether \<^verbatim>\<open>thread_schedule()\<close> reaches its call of \<^verbatim>\<open>thread_switch(old, next)\<close>.\<close>

definition switches :: "sys \<Rightarrow> bool" where
  "switches s =
     (case find_runnable_thread s of None \<Rightarrow> False | Some nxt \<Rightarrow> nxt \<noteq> current_thread s)"

text \<open>
  The selection in the words of the specification: the slots in the order
  \<open>current + 1, current + 2, \<dots>\<close> modulo \<open>MAX_THREADS\<close>, each once, and the first
  RUNNABLE one.
\<close>

definition round_robin_order :: "nat \<Rightarrow> nat list" where
  "round_robin_order c = map (\<lambda>k. (c + 1 + k) mod MAX_THREADS) [0..<MAX_THREADS]"

definition spec_select :: "sys \<Rightarrow> nat option" where
  "spec_select s =
     List.find (\<lambda>i. state (threads s ! i) = T_RUNNABLE) (round_robin_order (current_thread s))"

definition table_ok :: "sys \<Rightarrow> bool" where
  "table_ok s \<longleftrightarrow> length (threads s) = MAX_THREADS \<and> current_thread s < MAX_THREADS"

text \<open>Exactly one slot is RUNNING, and it is the current one.\<close>

definition one_running :: "sys \<Rightarrow> bool" where
  "one_running s \<longleftrightarrow>
     (\<forall>i<MAX_THREADS. state (threads s ! i) = T_RUNNING \<longleftrightarrow> i = current_thread s)"


subsection \<open>thread_join, thread_exit, thread_yield\<close>

text \<open>
  \<^verbatim>\<open>thread_join\<close> from the test of its waiting loop, \<open>t\<close> being the slot found by the
  lookup: either the caller records the tid, goes to sleep and enters the scheduler, to
  test again when it continues, or the target is a zombie and is reaped.
\<close>

definition thread_join_loop :: "sys \<Rightarrow> nat \<Rightarrow> int \<Rightarrow> sys \<times> (nat, nat) outcome" where
  "thread_join_loop s t jtid =
     (if state (threads s ! t) \<noteq> T_ZOMBIE then
        (thread_schedule
           (set_cur (set_cur s (\<lambda>c. c\<lparr>joined_tid := jtid\<rparr>)) (\<lambda>c. c\<lparr>state := T_SLEEPING\<rparr>)),
         Suspend t)
      else
        (s\<lparr>threads := (threads s)[t := (threads s ! t)\<lparr>state := T_UNUSED, tid := 0\<rparr>]\<rparr>,
         Return (retval (threads s ! t))))"

definition thread_join :: "sys \<Rightarrow> int \<Rightarrow> sys \<times> (nat, nat) outcome" where
  "thread_join s jtid =
     (case for_first (\<lambda>i. tid (threads s ! i) = jtid \<and> state (threads s ! i) \<noteq> T_UNUSED)
             0 MAX_THREADS of
        None \<Rightarrow> (s, Return 0)
      | Some t \<Rightarrow> thread_join_loop s t jtid)"

text \<open>\<^verbatim>\<open>thread_exit\<close> up to the return of its \<^verbatim>\<open>thread_schedule()\<close>; it then spins.\<close>

definition thread_exit :: "sys \<Rightarrow> nat \<Rightarrow> sys" where
  "thread_exit s rv =
     (let s1 = set_cur (set_cur s (\<lambda>c. c\<lparr>retval := rv\<rparr>)) (\<lambda>c. c\<lparr>state := T_ZOMBIE\<rparr>);
          my_tid = tid (cur s1);
          ts = map (\<lambda>t. if state t = T_SLEEPING \<and> joined_tid t = my_tid
                         then t\<lparr>state := T_RUNNABLE, joined_tid := - 1\<rparr> else t) (threads s1)
      in thread_schedule (s1\<lparr>threads := ts\<rparr>))"

definition thread_self :: "sys \<Rightarrow> int" where
  "thread_self s = tid (cur s)"

definition thread_yield :: "sys \<Rightarrow> sys" where
  "thread_yield s = thread_schedule (set_cur s (\<lambda>c. c\<lparr>state := T_RUNNABLE\<rparr>))"

section \<open>Wait queues\<close>

text \<open>
  \<^verbatim>\<open>struct mutex\<close>, \<^verbatim>\<open>struct semaphore\<close> and \<^verbatim>\<open>struct cond\<close> each hold the array
  \<^verbatim>\<open>wait_queue[MAX_THREADS]\<close> and the counter \<^verbatim>\<open>wait_count\<close>; the two fields are
  declared once and the structs extend them.
\<close>

record waitq =
  wait_queue :: "int list"
  wait_count :: int

type_synonym cond = waitq

record mutex = waitq +
  locked :: int
  owner_tid :: int

record semaphore = waitq +
  count :: int

text \<open>The tids that are queued, head first.\<close>

definition queued :: "'a waitq_scheme \<Rightarrow> int list" where
  "queued q = take (nat (wait_count q)) (wait_queue q)"

text \<open>\<^verbatim>\<open>q->wait_queue[q->wait_count++] = current_thread->tid;\<close>\<close>

definition enqueue_self :: "sys \<Rightarrow> 'a waitq_scheme \<Rightarrow> 'a waitq_scheme option" where
  "enqueue_self s q =
     (if 0 \<le> wait_count q \<and> wait_count q < int MAX_THREADS
      then Some (q\<lparr>wait_queue := (wait_queue q)[nat (wait_count q) := tid (cur s)],
                  wait_count := wait_count q + 1\<rparr>)
      else None)"

text \<open>\<^verbatim>\<open>for (i = 0; i < q->wait_count - 1; i++) q->wait_queue[i] = q->wait_queue[i + 1];\<close>\<close>

function shift_queue :: "int list \<Rightarrow> nat \<Rightarrow> int \<Rightarrow> int list" where
  "shift_queue q i n =
     (if int i < n - 1 then shift_queue (q[i := q ! (i + 1)]) (Suc i) n else q)"
  by pat_completeness auto
termination
  by (relation "measure (\<lambda>(q, i, n). nat (n - 1) - i)") auto

declare shift_queue.simps [simp del]

text \<open>
  The loop that finds and wakes the thread of a tid:
  \<^verbatim>\<open>for (i = 0; i < MAX_THREADS; i++) if (threads[i].tid == wake_tid) { threads[i].state = T_RUNNABLE; break; }\<close>
\<close>

definition wake :: "thread list \<Rightarrow> int \<Rightarrow> thread list" where
  "wake ts w =
     (case for_first (\<lambda>i. tid (ts ! i) = w) 0 MAX_THREADS of
        None \<Rightarrow> ts
      | Some i \<Rightarrow> ts[i := (ts ! i)\<lparr>state := T_RUNNABLE\<rparr>])"

text \<open>
  The block that \<^verbatim>\<open>mutex_unlock\<close>, \<^verbatim>\<open>sem_post\<close>, \<^verbatim>\<open>cond_signal\<close> and
  \<^verbatim>\<open>cond_broadcast\<close> each contain: read the head of the queue, shift the queue,
  decrement \<^verbatim>\<open>wait_count\<close>, find and wake the thread.
\<close>

definition wake_first :: "sys \<Rightarrow> 'a waitq_scheme \<Rightarrow> (sys \<times> 'a waitq_scheme) option" where
  "wake_first s q =
     (if int MAX_THREADS < wait_count q \<or> wait_count q = INT_MIN then None
      else
        let wake_tid = wait_queue q ! 0;
            q' = q\<lparr>wait_queue := shift_queue (wait_queue q) 0 (wait_count q),
                   wait_count := wait_count q - 1\<rparr>
        in Some (s\<lparr>threads := wake (threads s) wake_tid\<rparr>, q'))"

text \<open>
  Unique tids: every tid in the table is below \<open>next_tid\<close>, and a slot that carries
  the tid of an earlier slot is unused.
\<close>

definition tids_unique :: "sys \<Rightarrow> bool" where
  "tids_unique s \<longleftrightarrow>
     (\<forall>i\<in>{..<MAX_THREADS}. tid (threads s ! i) < next_tid s)
     \<and> (\<forall>j\<in>{..<MAX_THREADS}. \<forall>i\<in>{..<j}.
           tid (threads s ! i) = tid (threads s ! j) \<longrightarrow> state (threads s ! j) = T_UNUSED)"

section \<open>Mutex\<close>

definition mutex_init :: "mutex \<Rightarrow> mutex" where
  "mutex_init m =
     m\<lparr>locked := 0, owner_tid := - 1, wait_count := 0,
       wait_queue := replicate MAX_THREADS (- 1)\<rparr>"

text \<open>
  \<^verbatim>\<open>mutex_lock\<close> from the test of its loop: either the caller queues its tid, goes to
  sleep and enters the scheduler, to test again when it continues, or it takes the lock
  and returns.
\<close>

definition mutex_lock :: "sys \<Rightarrow> mutex \<Rightarrow> (sys \<times> mutex \<times> (unit, unit) outcome) option" where
  "mutex_lock s m =
     (if locked m \<noteq> 0 then
        (case enqueue_self s m of
           None \<Rightarrow> None
         | Some m' \<Rightarrow>
             Some (thread_schedule (set_cur s (\<lambda>c. c\<lparr>state := T_SLEEPING\<rparr>)), m', Suspend ()))
      else Some (s, m\<lparr>locked := 1, owner_tid := tid (cur s)\<rparr>, Return ()))"

definition mutex_unlock :: "sys \<Rightarrow> mutex \<Rightarrow> (sys \<times> mutex) option" where
  "mutex_unlock s m =
     (if owner_tid m \<noteq> tid (cur s) then Some (s, m)
      else
        (case (if wait_count m > 0 then wake_first s m else Some (s, m)) of
           None \<Rightarrow> None
         | Some (s', m') \<Rightarrow> Some (s', m'\<lparr>locked := 0, owner_tid := - 1\<rparr>)))"

text \<open>
  The predicate of the specification: locked if and only if \<open>owner_tid \<ge> 0\<close>, and no
  queued tid equals \<open>owner_tid\<close>; then the same with the array length and the sign of
  the queued tids.
\<close>

definition mutex_inv :: "mutex \<Rightarrow> bool" where
  "mutex_inv m \<longleftrightarrow> (locked m \<noteq> 0 \<longleftrightarrow> 0 \<le> owner_tid m) \<and> owner_tid m \<notin> set (queued m)"

definition mutex_ok :: "mutex \<Rightarrow> bool" where
  "mutex_ok m \<longleftrightarrow>
     mutex_inv m \<and> length (wait_queue m) = MAX_THREADS \<and> (\<forall>t\<in>set (queued m). 0 \<le> t)"

section \<open>Semaphore\<close>

definition sem_init :: "semaphore \<Rightarrow> int \<Rightarrow> semaphore" where
  "sem_init sem v =
     sem\<lparr>count := v, wait_count := 0, wait_queue := replicate MAX_THREADS (- 1)\<rparr>"

text \<open>
  \<^verbatim>\<open>sem_wait\<close> up to its return or its entry into the scheduler; when the caller
  continues after \<^verbatim>\<open>thread_schedule()\<close> it leaves the loop (\<^verbatim>\<open>break\<close>) and returns.
\<close>

definition sem_wait :: "sys \<Rightarrow> semaphore \<Rightarrow> (sys \<times> semaphore \<times> (unit, unit) outcome) option" where
  "sem_wait s sem =
     (if count sem = INT_MIN then None
      else
        let sem1 = sem\<lparr>count := count sem - 1\<rparr> in
        if count sem1 < 0 then
          (case enqueue_self s sem1 of
             None \<Rightarrow> None
           | Some sem2 \<Rightarrow>
               Some (thread_schedule (set_cur s (\<lambda>c. c\<lparr>state := T_SLEEPING\<rparr>)), sem2,
                     Suspend ()))
        else Some (s, sem1, Return ()))"

definition sem_post :: "sys \<Rightarrow> semaphore \<Rightarrow> (sys \<times> semaphore) option" where
  "sem_post s sem =
     (if count sem = INT_MAX then None
      else
        let sem1 = sem\<lparr>count := count sem + 1\<rparr> in
        if wait_count sem1 > 0 then wake_first s sem1 else Some (s, sem1))"

text \<open>
  A run of one semaphore: each step is a \<^verbatim>\<open>sem_wait\<close>, a \<^verbatim>\<open>sem_post\<close> or a
  \<^verbatim>\<open>thread_yield\<close> made by the thread that is current when the step starts.
\<close>

datatype sem_op = Op_wait | Op_post | Op_yield

fun sem_run :: "sem_op list \<Rightarrow> sys \<Rightarrow> semaphore \<Rightarrow> (sys \<times> semaphore) option" where
  "sem_run [] s sem = Some (s, sem)"
| "sem_run (Op_wait # ops) s sem =
     (case sem_wait s sem of None \<Rightarrow> None | Some (s', sem', r) \<Rightarrow> sem_run ops s' sem')"
| "sem_run (Op_post # ops) s sem =
     (case sem_post s sem of None \<Rightarrow> None | Some (s', sem') \<Rightarrow> sem_run ops s' sem')"
| "sem_run (Op_yield # ops) s sem = sem_run ops (thread_yield s) sem"

text \<open>The number of queued tids is \<open>max(0, - count)\<close>.\<close>

definition sem_inv :: "semaphore \<Rightarrow> bool" where
  "sem_inv sem \<longleftrightarrow> wait_count sem = max 0 (- semaphore.count sem)"

section \<open>Condition variable\<close>

definition cond_init :: "cond \<Rightarrow> cond" where
  "cond_init c = c\<lparr>wait_count := 0, wait_queue := replicate MAX_THREADS (- 1)\<rparr>"

text \<open>
  \<^verbatim>\<open>cond_wait\<close> up to its entry into the scheduler; when the caller continues it
  calls \<^verbatim>\<open>mutex_lock(m)\<close> and returns.
\<close>

definition cond_wait :: "sys \<Rightarrow> cond \<Rightarrow> mutex \<Rightarrow> (sys \<times> cond \<times> mutex) option" where
  "cond_wait s c m =
     (case enqueue_self s c of
        None \<Rightarrow> None
      | Some c' \<Rightarrow>
         (case mutex_unlock s m of
            None \<Rightarrow> None
          | Some (s1, m') \<Rightarrow>
              Some (thread_schedule (set_cur s1 (\<lambda>t. t\<lparr>state := T_SLEEPING\<rparr>)), c', m')))"

definition cond_signal :: "sys \<Rightarrow> cond \<Rightarrow> (sys \<times> cond) option" where
  "cond_signal s c = (if wait_count c = 0 then Some (s, c) else wake_first s c)"

function cond_broadcast :: "sys \<Rightarrow> cond \<Rightarrow> (sys \<times> cond) option" where
  "cond_broadcast s c =
     (if wait_count c > 0 then
        (case wake_first s c of
           None \<Rightarrow> None
         | Some (s', c') \<Rightarrow> cond_broadcast s' c')
      else Some (s, c))"
  by pat_completeness auto
termination
  by (relation "measure (\<lambda>(s, c). nat (wait_count c))")
     (auto simp: wake_first_def Let_def split: if_splits)

declare cond_broadcast.simps [simp del]


text \<open>
  \<^verbatim>\<open>cond_broadcast\<close> with a record of the passes of its loop: for each pass, the
  \<^verbatim>\<open>wake_tid\<close> it read and the thread table it left.
\<close>

function cond_broadcast_passes :: "sys \<Rightarrow> cond \<Rightarrow> ((int \<times> thread list) list \<times> sys \<times> cond) option" where
  "cond_broadcast_passes s c =
     (if wait_count c > 0 then
        (case wake_first s c of
           None \<Rightarrow> None
         | Some (s', c') \<Rightarrow>
             map_option (\<lambda>(ps, r). ((wait_queue c ! 0, threads s') # ps, r))
               (cond_broadcast_passes s' c'))
      else Some ([], s, c))"
  by pat_completeness auto
termination
  by (relation "measure (\<lambda>(s, c). nat (wait_count c))")
     (auto simp: wake_first_def Let_def split: if_splits)

declare cond_broadcast_passes.simps [simp del]

text \<open>
  Waking a list of tids in FIFO order, in the words of the specification: the first
  tid of the list is woken first; each step is the tid woken and the table after it.
\<close>

fun wake_steps :: "thread list \<Rightarrow> int list \<Rightarrow> (int \<times> thread list) list" where
  "wake_steps ts [] = []"
| "wake_steps ts (w # ws) = (w, wake ts w) # wake_steps (wake ts w) ws"

section \<open>Channel\<close>

record channel =
  buffer :: "nat list"
  capacity :: int
  count :: int
  read_pos :: int
  write_pos :: int
  closed :: int
  lock :: mutex
  not_empty :: cond
  not_full :: cond

text \<open>
  \<^verbatim>\<open>channel_create\<close>: the two allocations are commented out in the source, which
  assigns the null pointer in their place; \<open>None\<close> is the null pointer.
\<close>

definition channel_create :: "int \<Rightarrow> channel option" where
  "channel_create cap =
     (let ch = (None :: channel option) in
      case ch of
        None \<Rightarrow> None
      | Some c \<Rightarrow>
         (let buf = (None :: nat list option) in
          case buf of
            None \<Rightarrow> None
          | Some b \<Rightarrow>
              Some (c\<lparr>buffer := b, capacity := cap, count := 0, read_pos := 0,
                      write_pos := 0, closed := 0, lock := mutex_init (lock c),
                      not_empty := cond_init (not_empty c),
                      not_full := cond_init (not_full c)\<rparr>)))"

text \<open>\<^verbatim>\<open>(pos + 1) % ch->capacity\<close>, the remainder of C truncating towards zero.\<close>

definition ring_next :: "int \<Rightarrow> int \<Rightarrow> int option" where
  "ring_next pos cap =
     (if pos = INT_MAX \<or> cap = 0 then None else Some ((pos + 1) smod cap))"

text \<open>
  Where a channel operation continues after \<^verbatim>\<open>thread_schedule()\<close>: in the
  \<^verbatim>\<open>mutex_lock\<close> that opens it, or in the \<^verbatim>\<open>mutex_lock\<close> that ends a
  \<^verbatim>\<open>cond_wait\<close> (whose own scheduler call is followed by nothing else).
\<close>

datatype chan_pc = At_lock | At_relock

text \<open>\<^verbatim>\<open>channel_send\<close> from the test of \<^verbatim>\<open>while (ch->count == ch->capacity)\<close>.\<close>

definition send_loop :: "sys \<Rightarrow> channel \<Rightarrow> nat \<Rightarrow> (sys \<times> channel \<times> (int, chan_pc) outcome) option" where
  "send_loop s ch d =
     (if count ch = capacity ch then
        do { (s1, c1, m1) \<leftarrow> cond_wait s (not_full ch) (lock ch);
             Some (s1, ch\<lparr>not_full := c1, lock := m1\<rparr>, Suspend At_relock) }
      else if \<not> (0 \<le> write_pos ch \<and> nat (write_pos ch) < length (buffer ch)) then None
      else
        do { wp \<leftarrow> ring_next (write_pos ch) (capacity ch);
             cnt \<leftarrow> (if count ch = INT_MAX then None else Some (count ch + 1));
             (s1, c1) \<leftarrow> cond_signal s (not_empty ch);
             (s2, m2) \<leftarrow> mutex_unlock s1 (lock ch);
             Some (s2, ch\<lparr>buffer := (buffer ch)[nat (write_pos ch) := d], write_pos := wp,
                          count := cnt, not_empty := c1, lock := m2\<rparr>, Return 0) })"

text \<open>
  \<^verbatim>\<open>channel_send\<close> from a \<^verbatim>\<open>mutex_lock\<close> that has returned: the test of
  \<^verbatim>\<open>ch->closed\<close>, which follows both the opening \<^verbatim>\<open>mutex_lock\<close> and each
  \<^verbatim>\<open>cond_wait\<close>, then the loop.
\<close>

definition send_locked :: "sys \<Rightarrow> channel \<Rightarrow> nat \<Rightarrow> (sys \<times> channel \<times> (int, chan_pc) outcome) option" where
  "send_locked s ch d =
     (if closed ch \<noteq> 0 then
        do { (s1, m1) \<leftarrow> mutex_unlock s (lock ch);
             Some (s1, ch\<lparr>lock := m1\<rparr>, Return (- 1)) }
      else send_loop s ch d)"

definition channel_send :: "sys \<Rightarrow> channel \<Rightarrow> nat \<Rightarrow> chan_pc \<Rightarrow> (sys \<times> channel \<times> (int, chan_pc) outcome) option" where
  "channel_send s ch d pc =
     do { (s1, m1, r) \<leftarrow> mutex_lock s (lock ch);
          (case r of
             Suspend _ \<Rightarrow> Some (s1, ch\<lparr>lock := m1\<rparr>, Suspend pc)
           | Return _ \<Rightarrow> send_locked s1 (ch\<lparr>lock := m1\<rparr>) d) }"

text \<open>
  \<^verbatim>\<open>channel_recv\<close> from the test of \<^verbatim>\<open>while (ch->count == 0)\<close>; the result is
  the return value and what was stored through \<^verbatim>\<open>data\<close>.
\<close>

definition recv_loop :: "sys \<Rightarrow> channel \<Rightarrow> (sys \<times> channel \<times> (int \<times> nat option, chan_pc) outcome) option" where
  "recv_loop s ch =
     (if count ch = 0 then
        (if closed ch \<noteq> 0 then
           do { (s1, m1) \<leftarrow> mutex_unlock s (lock ch);
                Some (s1, ch\<lparr>lock := m1\<rparr>, Return (- 1, None)) }
         else
           do { (s1, c1, m1) \<leftarrow> cond_wait s (not_empty ch) (lock ch);
                Some (s1, ch\<lparr>not_empty := c1, lock := m1\<rparr>, Suspend At_relock) })
      else if \<not> (0 \<le> read_pos ch \<and> nat (read_pos ch) < length (buffer ch)) then None
      else
        do { rp \<leftarrow> ring_next (read_pos ch) (capacity ch);
             cnt \<leftarrow> (if count ch = INT_MIN then None else Some (count ch - 1));
             (s1, c1) \<leftarrow> cond_signal s (not_full ch);
             (s2, m2) \<leftarrow> mutex_unlock s1 (lock ch);
             Some (s2, ch\<lparr>read_pos := rp, count := cnt, not_full := c1, lock := m2\<rparr>,
                   Return (0, Some (buffer ch ! nat (read_pos ch)))) })"

definition channel_recv :: "sys \<Rightarrow> channel \<Rightarrow> chan_pc \<Rightarrow> (sys \<times> channel \<times> (int \<times> nat option, chan_pc) outcome) option" where
  "channel_recv s ch pc =
     do { (s1, m1, r) \<leftarrow> mutex_lock s (lock ch);
          (case r of
             Suspend _ \<Rightarrow> Some (s1, ch\<lparr>lock := m1\<rparr>, Suspend pc)
           | Return _ \<Rightarrow> recv_loop s1 (ch\<lparr>lock := m1\<rparr>)) }"

definition channel_close :: "sys \<Rightarrow> channel \<Rightarrow> (sys \<times> channel \<times> (unit, chan_pc) outcome) option" where
  "channel_close s ch =
     do { (s1, m1, r) \<leftarrow> mutex_lock s (lock ch);
          (case r of
             Suspend _ \<Rightarrow> Some (s1, ch\<lparr>lock := m1\<rparr>, Suspend At_lock)
           | Return _ \<Rightarrow>
               do { (s2, c2) \<leftarrow> cond_broadcast s1 (not_empty ch);
                    (s3, c3) \<leftarrow> cond_broadcast s2 (not_full ch);
                    (s4, m4) \<leftarrow> mutex_unlock s3 m1;
                    Some (s4, ch\<lparr>closed := 1, not_empty := c2, not_full := c3, lock := m4\<rparr>,
                          Return ()) }) }"






definition same_tids :: "sys \<Rightarrow> sys \<Rightarrow> bool" where
  "same_tids s s' \<longleftrightarrow>
     current_thread s' = current_thread s \<and> length (threads s') = length (threads s)
     \<and> map tid (threads s') = map tid (threads s)"


section \<open>Runs of library calls\<close>

text \<open>
  The two halves of the property when it fails to hold: no slot other than the current
  one is RUNNING; no slot at all is RUNNING or RUNNABLE.
\<close>

definition no_other_running :: "sys \<Rightarrow> bool" where
  "no_other_running s \<longleftrightarrow>
     (\<forall>i<MAX_THREADS. i \<noteq> current_thread s \<longrightarrow> state (threads s ! i) \<noteq> T_RUNNING)"

definition nothing_to_run :: "sys \<Rightarrow> bool" where
  "nothing_to_run s \<longleftrightarrow>
     (\<forall>i<MAX_THREADS. state (threads s ! i) \<noteq> T_RUNNABLE \<and> state (threads s ! i) \<noteq> T_RUNNING)"

text \<open>
  The calls of the library, each with the object it is applied to, and what a call does
  to the thread table up to its return or its entry into the scheduler; the flag says
  whether it has entered \<^verbatim>\<open>thread_schedule()\<close>, so that its end is a suspension
  point. A run is a sequence of calls, each made by the thread that is current when it
  starts; the objects are arbitrary at every call.
\<close>

datatype call =
    Thread_create nat nat
  | Thread_join int
  | Thread_join_again nat int
  | Thread_exit nat
  | Thread_yield
  | Thread_schedule
  | Mutex_lock mutex
  | Mutex_unlock mutex
  | Sem_wait semaphore
  | Sem_post semaphore
  | Cond_wait cond mutex
  | Cond_signal cond
  | Cond_broadcast cond
  | Channel_send channel nat chan_pc
  | Channel_recv channel chan_pc
  | Channel_close channel

fun entered :: "('r, 'k) outcome \<Rightarrow> bool" where
  "entered (Return v) = False"
| "entered (Suspend k) = True"

fun call_sys :: "call \<Rightarrow> sys \<Rightarrow> (sys \<times> bool) option" where
  "call_sys (Thread_create f a) s = map_option (\<lambda>(s', t). (s', False)) (thread_create s f a)"
| "call_sys (Thread_join t) s = (case thread_join s t of (s', r) \<Rightarrow> Some (s', entered r))"
| "call_sys (Thread_join_again t jt) s =
     (case thread_join_loop s t jt of (s', r) \<Rightarrow> Some (s', entered r))"
| "call_sys (Thread_exit rv) s = Some (thread_exit s rv, True)"
| "call_sys Thread_yield s = Some (thread_yield s, True)"
| "call_sys Thread_schedule s = Some (thread_schedule s, True)"
| "call_sys (Mutex_lock m) s = map_option (\<lambda>(s', m', r). (s', entered r)) (mutex_lock s m)"
| "call_sys (Mutex_unlock m) s = map_option (\<lambda>(s', m'). (s', False)) (mutex_unlock s m)"
| "call_sys (Sem_wait sem) s = map_option (\<lambda>(s', sem', r). (s', entered r)) (sem_wait s sem)"
| "call_sys (Sem_post sem) s = map_option (\<lambda>(s', sem'). (s', False)) (sem_post s sem)"
| "call_sys (Cond_wait c m) s = map_option (\<lambda>(s', c', m'). (s', True)) (cond_wait s c m)"
| "call_sys (Cond_signal c) s = map_option (\<lambda>(s', c'). (s', False)) (cond_signal s c)"
| "call_sys (Cond_broadcast c) s = map_option (\<lambda>(s', c'). (s', False)) (cond_broadcast s c)"
| "call_sys (Channel_send ch d pc) s =
     map_option (\<lambda>(s', ch', r). (s', entered r)) (channel_send s ch d pc)"
| "call_sys (Channel_recv ch pc) s =
     map_option (\<lambda>(s', ch', r). (s', entered r)) (channel_recv s ch pc)"
| "call_sys (Channel_close ch) s =
     map_option (\<lambda>(s', ch', r). (s', entered r)) (channel_close s ch)"

fun calls :: "call list \<Rightarrow> sys \<times> bool \<Rightarrow> (sys \<times> bool) option" where
  "calls [] x = Some x"
| "calls (c # cs) (s, b) = (case call_sys c s of None \<Rightarrow> None | Some x \<Rightarrow> calls cs x)"

text \<open>
  What holds throughout a run, and what holds after a call that has entered the
  scheduler.
\<close>

definition inv_run :: "sys \<Rightarrow> bool" where
  "inv_run s \<longleftrightarrow> table_ok s \<and> no_other_running s"

definition inv_sched :: "sys \<Rightarrow> bool" where
  "inv_sched s \<longleftrightarrow> inv_run s \<and> (one_running s \<or> nothing_to_run s)"

section \<open>Example states\<close>

text \<open>
  A table with a running, a sleeping, a runnable and a zombie thread, and queues that
  hold the tids 3 and 1.
\<close>

definition slot :: "int \<Rightarrow> tstate \<Rightarrow> thread" where
  "slot i st =
     \<lparr>tid = i, state = st, start_routine = 0, arg = 0, retval = 0, joined_tid = - 1\<rparr>"

definition demo_sys :: sys where
  "demo_sys =
     \<lparr>threads = (replicate MAX_THREADS (slot 0 T_UNUSED))
                  [0 := slot 0 T_RUNNING, 1 := slot 1 T_SLEEPING, 2 := slot 2 T_RUNNABLE,
                   3 := slot 3 T_ZOMBIE],
      current_thread = 0, next_tid = 4\<rparr>"

definition demo_mutex :: mutex where
  "demo_mutex =
     \<lparr>wait_queue = replicate MAX_THREADS (- 1), wait_count = 0, locked = 0, owner_tid = - 1\<rparr>"

definition demo_cond :: cond where
  "demo_cond = \<lparr>wait_queue = (replicate MAX_THREADS (- 1))[0 := 3, 1 := 1], wait_count = 2\<rparr>"

definition demo_sem :: semaphore where
  "demo_sem = \<lparr>wait_queue = (replicate MAX_THREADS (- 1))[0 := 3, 1 := 1], wait_count = 2,
                semaphore.count = - 2\<rparr>"

definition demo_owned_mutex :: mutex where
  "demo_owned_mutex =
     \<lparr>wait_queue = (replicate MAX_THREADS (- 1))[0 := 3, 1 := 1], wait_count = 2,
      locked = 1, owner_tid = 0\<rparr>"

text \<open>
  The memory before \<^verbatim>\<open>thread_init\<close> (static storage), the table after
  \<^verbatim>\<open>thread_init\<close>, and after the bootstrap thread has created one thread; then the
  bootstrap thread joins that thread, which in turn joins the bootstrap thread; or the
  bootstrap thread exits.
\<close>

definition zero_sys :: sys where
  "zero_sys =
     \<lparr>threads = replicate MAX_THREADS
        \<lparr>tid = 0, state = T_UNUSED, start_routine = 0, arg = 0, retval = 0, joined_tid = 0\<rparr>,
      current_thread = 0, next_tid = 1\<rparr>"

definition boot_sys :: sys where
  "boot_sys = thread_init zero_sys"

definition two_sys :: sys where
  "two_sys = (case thread_create boot_sys 7 0 of Some (s, t) \<Rightarrow> s | None \<Rightarrow> boot_sys)"

definition main_joining :: sys where
  "main_joining = fst (thread_join two_sys 1)"

definition both_joining :: sys where
  "both_joining = fst (thread_join main_joining 0)"

definition main_exited :: sys where
  "main_exited = thread_exit two_sys 0"

text \<open>
  A mutex taken by the bootstrap thread; then locked again by its owner, locked by the
  other thread, or released by its owner.
\<close>

definition held_mutex :: mutex where
  "held_mutex =
     (case mutex_lock boot_sys (mutex_init demo_mutex) of
        Some (s, m, r) \<Rightarrow> m | None \<Rightarrow> demo_mutex)"

definition relocked_mutex :: mutex where
  "relocked_mutex =
     (case mutex_lock boot_sys held_mutex of Some (s, m, r) \<Rightarrow> m | None \<Rightarrow> held_mutex)"

definition waited_mutex :: mutex where
  "waited_mutex =
     (case mutex_lock (thread_schedule two_sys) held_mutex of
        Some (s, m, r) \<Rightarrow> m | None \<Rightarrow> held_mutex)"

definition released_mutex :: mutex where
  "released_mutex =
     (case mutex_unlock two_sys held_mutex of Some (s, m) \<Rightarrow> m | None \<Rightarrow> held_mutex)"

text \<open>
  A semaphore of value 0; the bootstrap thread, alone, waits on it; a run of operations
  by two threads; a wait by the bootstrap thread while the other thread is runnable.
\<close>

definition zero_sem :: semaphore where
  "zero_sem = sem_init \<lparr>wait_queue = replicate MAX_THREADS 0, wait_count = 0, semaphore.count = 0\<rparr> 0"

definition lone_wait_sys :: sys where
  "lone_wait_sys = (case sem_wait boot_sys zero_sem of Some (s, sem, r) \<Rightarrow> s | None \<Rightarrow> boot_sys)"

definition lone_wait_sem :: semaphore where
  "lone_wait_sem = (case sem_wait boot_sys zero_sem of Some (s, sem, r) \<Rightarrow> sem | None \<Rightarrow> zero_sem)"

definition demo_ops :: "sem_op list" where
  "demo_ops = [Op_wait, Op_wait, Op_post, Op_yield, Op_post, Op_post, Op_wait]"

definition demo_run_sem :: semaphore where
  "demo_run_sem =
     (case sem_run demo_ops two_sys zero_sem of Some (s, sem) \<Rightarrow> sem | None \<Rightarrow> zero_sem)"

definition parked_sys :: sys where
  "parked_sys = (case sem_wait two_sys zero_sem of Some (s, sem, r) \<Rightarrow> s | None \<Rightarrow> two_sys)"




section \<open>Properties\<close>

subsection \<open>Loops\<close>

lemma for_first_find: "for_first P i hi = List.find P [i..<hi]"
proof (induction P i hi rule: for_first.induct)
  case (1 P i hi)
  show ?case
  proof (cases "i < hi")
    case True
    then have "[i..<hi] = i # [Suc i..<hi]" by (simp add: upt_conv_Cons)
    with True 1 show ?thesis by (simp add: for_first.simps [of P i hi])
  next
    case False
    then show ?thesis by (simp add: for_first.simps [of P i hi])
  qed
qed

lemma find_append_case:
  "List.find P (xs @ ys) = (case List.find P xs of Some x \<Rightarrow> Some x | None \<Rightarrow> List.find P ys)"
  by (induction xs) auto

lemma rotate_order:
  assumes "st < n"
  shows "map (\<lambda>k. (st + k) mod n) [0..<n] = [st..<n] @ [0..<st]"
proof (rule nth_equalityI)
  show "length (map (\<lambda>k. (st + k) mod n) [0..<n]) = length ([st..<n] @ [0..<st])"
    using assms by simp
next
  fix i assume "i < length (map (\<lambda>k. (st + k) mod n) [0..<n])"
  then have i: "i < n" by simp
  show "map (\<lambda>k. (st + k) mod n) [0..<n] ! i = ([st..<n] @ [0..<st]) ! i"
  proof (cases "i < n - st")
    case True
    then show ?thesis using i assms by (simp add: nth_append)
  next
    case False
    then have "st + i - n < st" "n \<le> st + i" "st + i < n + n" using i assms by auto
    then have "(st + i) mod n = st + i - n"
      by (metis le_add_diff_inverse2 add.commute mod_add_self2 mod_less less_trans assms)
    with False i assms show ?thesis by (simp add: nth_append) 
  qed
qed

lemma round_robin_order_split:
  assumes "c < MAX_THREADS"
  shows "round_robin_order c =
           [(c + 1) mod MAX_THREADS..<MAX_THREADS] @ [0..<(c + 1) mod MAX_THREADS]"
proof -
  have "(\<lambda>k. (c + 1 + k) mod MAX_THREADS) = (\<lambda>k. ((c + 1) mod MAX_THREADS + k) mod MAX_THREADS)"
    by (simp add: mod_add_left_eq)
  moreover have "(c + 1) mod MAX_THREADS < MAX_THREADS" by (simp add: MAX_THREADS_def)
  ultimately show ?thesis
    unfolding round_robin_order_def using rotate_order by simp
qed

lemma cur_in_order:
  assumes "c < MAX_THREADS"
  shows "c \<in> set (round_robin_order c)"
proof -
  have "(c + 1 + (MAX_THREADS - 1)) mod MAX_THREADS = c"
    using assms by (simp add: MAX_THREADS_def)
  moreover have "MAX_THREADS - 1 \<in> set [0..<MAX_THREADS]" by (simp add: MAX_THREADS_def)
  ultimately show ?thesis unfolding round_robin_order_def
    by (metis (no_types, lifting) image_eqI set_map)
qed

lemma find_runnable_thread_spec:
  assumes "table_ok s"
  shows "find_runnable_thread s = spec_select s"
proof -
  let ?P = "\<lambda>i. state (threads s ! i) = T_RUNNABLE"
  let ?st = "(current_thread s + 1) mod MAX_THREADS"
  have c: "current_thread s < MAX_THREADS" using assms by (simp add: table_ok_def)
  have sp: "spec_select s = (case List.find ?P [?st..<MAX_THREADS] of Some x \<Rightarrow> Some x
              | None \<Rightarrow> List.find ?P [0..<?st])"
    by (simp add: spec_select_def round_robin_order_split [OF c] find_append_case
          cong: option.case_cong)
  show ?thesis
  proof (cases "spec_select s")
    case None
    then have "\<not> ?P (current_thread s)"
      using cur_in_order [OF c] by (auto simp: spec_select_def find_None_iff)
    with None show ?thesis
      unfolding sp find_runnable_thread_def
      by (simp add: for_first_find cur_def split: option.splits)
  next
    case (Some i)
    then show ?thesis
      unfolding sp find_runnable_thread_def
      by (auto simp add: for_first_find Let_def split: option.splits)
  qed
qed

lemma table_ok_demo: "table_ok demo_sys"
  by (simp add: table_ok_def demo_sys_def MAX_THREADS_def)

lemma spec_select_less:
  assumes "spec_select s = Some n"
  shows "n < MAX_THREADS"
proof -
  from assms have "n \<in> set (round_robin_order (current_thread s))"
    unfolding spec_select_def by (metis find_Some_iff nth_mem)
  then show ?thesis by (auto simp: round_robin_order_def MAX_THREADS_def)
qed

lemma thread_schedule_Some:
  assumes "table_ok s" "find_runnable_thread s = Some n"
  shows "current_thread (thread_schedule s) = n"
    and "state (threads (thread_schedule s) ! n) = T_RUNNING"
proof -
  have n: "n < MAX_THREADS"
    using assms spec_select_less find_runnable_thread_spec by simp
  show "current_thread (thread_schedule s) = n"
    using assms by (simp add: thread_schedule_def Let_def set_cur_def)
  show "state (threads (thread_schedule s) ! n) = T_RUNNING"
    using assms n by (simp add: thread_schedule_def Let_def set_cur_def table_ok_def)
qed

lemma spec_select_None:
  assumes "table_ok s"
  shows "spec_select s = None \<longleftrightarrow> (\<forall>i<MAX_THREADS. state (threads s ! i) \<noteq> T_RUNNABLE)"
proof -
  have c: "current_thread s < MAX_THREADS" using assms by (simp add: table_ok_def)
  have "set (round_robin_order (current_thread s)) = {0..<MAX_THREADS}"
    using c by (auto simp: round_robin_order_split MAX_THREADS_def)
  then show ?thesis by (auto simp: spec_select_def find_None_iff)
qed

lemma spec_select_only_cur:
  assumes "table_ok s" "\<forall>i<MAX_THREADS. i \<noteq> current_thread s \<longrightarrow> state (threads s ! i) \<noteq> T_RUNNABLE"
    "state (cur s) = T_RUNNABLE"
  shows "spec_select s = Some (current_thread s)"
proof (cases "spec_select s")
  case None
  then show ?thesis using assms spec_select_None [OF assms(1)] by (auto simp: cur_def table_ok_def)
next
  case (Some n)
  then have "state (threads s ! n) = T_RUNNABLE" "n < MAX_THREADS"
    using spec_select_less by (auto simp: spec_select_def find_Some_iff)
  with assms Some show ?thesis by auto
qed

subsection \<open>Round-robin selection\<close>

text \<open>
  Claim C2. For every thread table, \<^verbatim>\<open>find_runnable_thread\<close> selects what the
  specification describes: the first RUNNABLE slot in the order \<open>current + 1\<close>,
  \<open>current + 2\<close>, \<dots> modulo \<open>MAX_THREADS\<close>, every slot being visited once;
  \<^verbatim>\<open>thread_schedule\<close> makes that slot the current, RUNNING one and calls
  \<^verbatim>\<open>thread_switch\<close> exactly when it differs from the caller. When the caller is
  the only RUNNABLE slot it is selected and continues; when no slot is RUNNABLE
  \<^verbatim>\<open>thread_schedule\<close> returns with nothing changed and without a switch.
\<close>
theorem schedule_round_robin:
  assumes "table_ok s"
  shows "find_runnable_thread s = spec_select s
    \<and> (spec_select s = Some n \<longleftrightarrow>
         (\<exists>k<MAX_THREADS. n = (current_thread s + 1 + k) mod MAX_THREADS
            \<and> state (threads s ! n) = T_RUNNABLE
            \<and> (\<forall>j<k. state (threads s ! ((current_thread s + 1 + j) mod MAX_THREADS)) \<noteq> T_RUNNABLE)))
    \<and> (spec_select s = Some n \<longrightarrow>
         current_thread (thread_schedule s) = n
         \<and> state (threads (thread_schedule s) ! n) = T_RUNNING
         \<and> (switches s \<longleftrightarrow> n \<noteq> current_thread s))
    \<and> ((\<forall>i<MAX_THREADS. i \<noteq> current_thread s \<longrightarrow> state (threads s ! i) \<noteq> T_RUNNABLE)
         \<and> state (cur s) = T_RUNNABLE \<longrightarrow>
         spec_select s = Some (current_thread s) \<and> \<not> switches s
         \<and> current_thread (thread_schedule s) = current_thread s)
    \<and> ((\<forall>i<MAX_THREADS. state (threads s ! i) \<noteq> T_RUNNABLE) \<longrightarrow>
         spec_select s = None \<and> thread_schedule s = s \<and> \<not> switches s)"
proof -
  note eq = find_runnable_thread_spec [OF assms]
  have 1: "spec_select s = Some n \<longleftrightarrow>
         (\<exists>k<MAX_THREADS. n = (current_thread s + 1 + k) mod MAX_THREADS
            \<and> state (threads s ! n) = T_RUNNABLE
            \<and> (\<forall>j<k. state (threads s ! ((current_thread s + 1 + j) mod MAX_THREADS)) \<noteq> T_RUNNABLE))"
    unfolding spec_select_def find_Some_iff round_robin_order_def
    by (auto simp: MAX_THREADS_def)
  have 2: "spec_select s = Some n \<longrightarrow>
         current_thread (thread_schedule s) = n
         \<and> state (threads (thread_schedule s) ! n) = T_RUNNING
         \<and> (switches s \<longleftrightarrow> n \<noteq> current_thread s)"
    using thread_schedule_Some [OF assms, of n] eq by (simp add: switches_def)
  have 3: "(\<forall>i<MAX_THREADS. i \<noteq> current_thread s \<longrightarrow> state (threads s ! i) \<noteq> T_RUNNABLE)
         \<and> state (cur s) = T_RUNNABLE \<longrightarrow>
         spec_select s = Some (current_thread s) \<and> \<not> switches s
         \<and> current_thread (thread_schedule s) = current_thread s"
    using spec_select_only_cur [OF assms] eq thread_schedule_Some(1) [OF assms, of "current_thread s"]
    by (simp add: switches_def)
  have 4: "(\<forall>i<MAX_THREADS. state (threads s ! i) \<noteq> T_RUNNABLE) \<longrightarrow>
         spec_select s = None \<and> thread_schedule s = s \<and> \<not> switches s"
    using spec_select_None [OF assms] eq by (auto simp add: switches_def thread_schedule_def)
  from eq 1 2 3 4 show ?thesis by blast
qed

lemma demo_select: "spec_select demo_sys = Some 2"
  by code_simp

theorem schedule_round_robin_witness:
  "table_ok demo_sys \<and> find_runnable_thread demo_sys = Some 2
   \<and> current_thread (thread_schedule demo_sys) = 2 \<and> switches demo_sys"
  using schedule_round_robin [OF table_ok_demo, of 2] table_ok_demo demo_select
  by (simp add: demo_sys_def)

subsection \<open>Unlocking a mutex one does not own\<close>

text \<open>
  Claim C7. When the tid of the calling thread differs from \<^verbatim>\<open>m->owner_tid\<close>,
  \<^verbatim>\<open>mutex_unlock\<close> returns with the mutex (\<open>locked\<close>, \<open>owner_tid\<close>, the wait
  queue, \<open>wait_count\<close>) and the whole thread table unchanged.
\<close>
theorem mutex_unlock_not_owner:
  "owner_tid m \<noteq> tid (cur s) \<Longrightarrow> mutex_unlock s m = Some (s, m)"
  by (simp add: mutex_unlock_def)

lemma unlock_demo_facts:
  "tid (cur (thread_schedule demo_sys)) = 2" "owner_tid demo_owned_mutex = 0"
  "locked demo_owned_mutex = 1" "queued demo_owned_mutex = [3, 1]"
  "mutex_unlock demo_sys demo_owned_mutex \<noteq> Some (demo_sys, demo_owned_mutex)"
  by code_simp+

theorem mutex_unlock_not_owner_witness:
  "locked demo_owned_mutex = 1 \<and> owner_tid demo_owned_mutex = 0
   \<and> queued demo_owned_mutex = [3, 1] \<and> tid (cur (thread_schedule demo_sys)) = 2
   \<and> owner_tid demo_owned_mutex \<noteq> tid (cur (thread_schedule demo_sys))
   \<and> mutex_unlock (thread_schedule demo_sys) demo_owned_mutex
        = Some (thread_schedule demo_sys, demo_owned_mutex)
   \<and> mutex_unlock demo_sys demo_owned_mutex \<noteq> Some (demo_sys, demo_owned_mutex)"
proof -
  have h: "owner_tid demo_owned_mutex \<noteq> tid (cur (thread_schedule demo_sys))"
    using unlock_demo_facts(1,2) by simp
  from h mutex_unlock_not_owner [OF h] unlock_demo_facts show ?thesis by simp
qed

subsection \<open>Waking a tid, and the wait queues\<close>

lemma for_first_None: "for_first P 0 n = None \<longleftrightarrow> (\<forall>i<n. \<not> P i)"
  by (auto simp: for_first_find find_None_iff)

lemma for_first_Some: "for_first P 0 n = Some j \<longleftrightarrow> j < n \<and> P j \<and> (\<forall>i<j. \<not> P i)"
  by (auto simp: for_first_find find_Some_iff)

lemma wake_first_match:
  assumes "j < MAX_THREADS" "tid (ts ! j) = w" "\<forall>i<j. tid (ts ! i) \<noteq> w"
  shows "wake ts w = ts[j := (ts ! j)\<lparr>state := T_RUNNABLE\<rparr>]"
proof -
  have "for_first (\<lambda>i. tid (ts ! i) = w) 0 MAX_THREADS = Some j"
    using assms by (simp add: for_first_Some)
  then show ?thesis by (simp add: wake_def)
qed

lemma wake_no_match:
  assumes "\<forall>i<MAX_THREADS. tid (ts ! i) \<noteq> w"
  shows "wake ts w = ts"
proof -
  have "for_first (\<lambda>i. tid (ts ! i) = w) 0 MAX_THREADS = None"
    using assms by (simp add: for_first_None)
  then show ?thesis by (simp add: wake_def)
qed

lemma wake_cases:
  "(\<forall>i<MAX_THREADS. tid (ts ! i) \<noteq> w) \<and> wake ts w = ts
   \<or> (\<exists>j<MAX_THREADS. tid (ts ! j) = w \<and> (\<forall>i<j. tid (ts ! i) \<noteq> w)
         \<and> wake ts w = ts[j := (ts ! j)\<lparr>state := T_RUNNABLE\<rparr>])"
proof (cases "for_first (\<lambda>i. tid (ts ! i) = w) 0 MAX_THREADS")
  case None
  then have "\<forall>i<MAX_THREADS. tid (ts ! i) \<noteq> w" by (simp add: for_first_None)
  then show ?thesis using wake_no_match by blast
next
  case (Some j)
  then have "j < MAX_THREADS" "tid (ts ! j) = w" "\<forall>i<j. tid (ts ! i) \<noteq> w"
    by (auto simp: for_first_Some)
  then show ?thesis using wake_first_match by blast
qed

lemma length_wake [simp]: "length (wake ts w) = length ts"
  using wake_cases [of ts w] by auto

lemma tid_wake:
  assumes "length ts = MAX_THREADS"
  shows "tid (wake ts w ! i) = tid (ts ! i)"
  using wake_cases [of ts w] assms by (auto simp: nth_list_update)

lemma state_wake_runnable:
  assumes "length ts = MAX_THREADS" "state (ts ! i) = T_RUNNABLE"
  shows "state (wake ts w ! i) = T_RUNNABLE"
  using wake_cases [of ts w] assms by (auto simp: nth_list_update)

lemma length_shift_queue [simp]: "length (shift_queue q i n) = length q"
  by (induction q i n rule: shift_queue.induct) (simp add: shift_queue.simps)

lemma shift_queue_nth:
  assumes "n \<le> int (length q)" "k < length q"
  shows "shift_queue q i n ! k = (if i \<le> k \<and> int k < n - 1 then q ! (k + 1) else q ! k)"
  using assms
proof (induction q i n arbitrary: k rule: shift_queue.induct)
  case (1 q i n)
  show ?case
  proof (cases "int i < n - 1")
    case True
    let ?q = "q[i := q ! (i + 1)]"
    have "shift_queue q i n ! k = shift_queue ?q (Suc i) n ! k"
      using True by (simp add: shift_queue.simps [of q i n])
    also have "\<dots> = (if Suc i \<le> k \<and> int k < n - 1 then ?q ! (k + 1) else ?q ! k)"
      using "1.IH" [OF True, of k] "1.prems" by simp
    also have "\<dots> = (if i \<le> k \<and> int k < n - 1 then q ! (k + 1) else q ! k)"
      using True "1.prems" by (auto simp: nth_list_update)
    finally show ?thesis .
  next
    case False
    then show ?thesis by (auto simp add: shift_queue.simps [of q i n])
  qed
qed

lemma take_shift_queue:
  assumes "0 < n" "n \<le> int (length q)"
  shows "take (nat (n - 1)) (shift_queue q 0 n) = tl (take (nat n) q)"
proof (rule nth_equalityI)
  show "length (take (nat (n - 1)) (shift_queue q 0 n)) = length (tl (take (nat n) q))"
    using assms by auto
next
  fix k assume "k < length (take (nat (n - 1)) (shift_queue q 0 n))"
  then have k: "int k < n - 1" "k < length q" using assms by auto
  then have "shift_queue q 0 n ! k = q ! (k + 1)"
    using shift_queue_nth [OF assms(2), of k 0] by simp
  moreover have "tl (take (nat n) q) ! k = q ! (k + 1)"
    using k assms by (simp add: nth_tl)
  ultimately show "take (nat (n - 1)) (shift_queue q 0 n) ! k = tl (take (nat n) q) ! k"
    using k by simp
qed

lemma wake_first_Some:
  assumes "wait_count q \<le> int MAX_THREADS" "0 < wait_count q"
  shows "wake_first s q =
           Some (s\<lparr>threads := wake (threads s) (wait_queue q ! 0)\<rparr>,
                 q\<lparr>wait_queue := shift_queue (wait_queue q) 0 (wait_count q),
                   wait_count := wait_count q - 1\<rparr>)"
  using assms by (simp add: wake_first_def INT_MIN_def)

lemma queued_wake_first:
  assumes "wake_first s q = Some (s', q')" "0 < wait_count q" "length (wait_queue q) = MAX_THREADS"
  shows "queued q = wait_queue q ! 0 # queued q'"
    and "threads s' = wake (threads s) (wait_queue q ! 0)"
    and "wait_count q' = wait_count q - 1"
    and "length (wait_queue q') = MAX_THREADS"
    and "current_thread s' = current_thread s"
proof -
  have le: "wait_count q \<le> int MAX_THREADS"
    using assms(1) by (auto simp: wake_first_def split: if_splits)
  note eq = assms(1) [unfolded wake_first_Some [OF le assms(2)]]
  from eq show "threads s' = wake (threads s) (wait_queue q ! 0)"
    "wait_count q' = wait_count q - 1" "current_thread s' = current_thread s" by auto
  from eq assms(3) show "length (wait_queue q') = MAX_THREADS" by auto
  have "queued q' = tl (queued q)"
    using eq take_shift_queue [of "wait_count q" "wait_queue q"] assms(2,3) le
    by (auto simp: queued_def)
  moreover have "queued q \<noteq> []" "hd (queued q) = wait_queue q ! 0"
    using assms(2,3) by (cases "wait_queue q"; auto simp: queued_def MAX_THREADS_def)+
  ultimately show "queued q = wait_queue q ! 0 # queued q'"
    by (metis list.collapse)
qed

lemma queued_enqueue_self:
  assumes "enqueue_self s q = Some q'" "length (wait_queue q) = MAX_THREADS"
  shows "queued q' = queued q @ [tid (cur s)]"
    and "wait_count q' = wait_count q + 1"
    and "length (wait_queue q') = MAX_THREADS"
proof -
  from assms(1) have b: "0 \<le> wait_count q" "wait_count q < int MAX_THREADS"
    and q': "q' = q\<lparr>wait_queue := (wait_queue q)[nat (wait_count q) := tid (cur s)],
                  wait_count := wait_count q + 1\<rparr>"
    by (auto simp: enqueue_self_def split: if_splits)
  show "wait_count q' = wait_count q + 1" "length (wait_queue q') = MAX_THREADS"
    using q' assms(2) by auto
  have n: "nat (wait_count q + 1) = Suc (nat (wait_count q))" using b by simp
  have l: "nat (wait_count q) < length (wait_queue q)" using b assms(2) by simp
  show "queued q' = queued q @ [tid (cur s)]"
    unfolding queued_def q' using l by (simp add: n take_Suc_conv_app_nth)
qed

subsection \<open>cond_broadcast\<close>

lemma foldl_wake_length [simp]: "length (foldl wake ts ws) = length ts"
  by (induction ws arbitrary: ts) auto


lemma foldl_wake_keeps_runnable:
  "length ts = MAX_THREADS \<Longrightarrow> state (ts ! i) = T_RUNNABLE \<Longrightarrow>
     state (foldl wake ts ws ! i) = T_RUNNABLE"
  by (induction ws arbitrary: ts) (auto simp: state_wake_runnable)

lemma foldl_wake_runnable:
  assumes "length ts = MAX_THREADS" "w \<in> set ws"
    "j < MAX_THREADS" "tid (ts ! j) = w" "\<forall>i<j. tid (ts ! i) \<noteq> w"
  shows "state (foldl wake ts ws ! j) = T_RUNNABLE"
  using assms
proof (induction ws arbitrary: ts)
  case Nil
  then show ?case by simp
next
  case (Cons v ws)
  show ?case
  proof (cases "v = w")
    case True
    have "state (wake ts v ! j) = T_RUNNABLE"
      using wake_first_match [of j ts w] Cons.prems True by simp
    then show ?thesis
      using foldl_wake_keeps_runnable [of "wake ts v" j ws] Cons.prems by simp
  next
    case False
    then have "w \<in> set ws" using Cons.prems by simp
    moreover have "tid (wake ts v ! j) = w" "\<forall>i<j. tid (wake ts v ! i) \<noteq> w"
      using Cons.prems by (simp_all add: tid_wake)
    ultimately have "state (foldl wake (wake ts v) ws ! j) = T_RUNNABLE"
      using Cons.IH [of "wake ts v"] Cons.prems by simp
    then show ?thesis by simp
  qed
qed

lemma cond_broadcast_drains:
  assumes "length (wait_queue c) = MAX_THREADS" "wait_count c \<le> int MAX_THREADS"
  shows "\<exists>c'. cond_broadcast s c =
            Some (s\<lparr>threads := foldl wake (threads s) (queued c)\<rparr>, c')
          \<and> wait_count c' = min 0 (wait_count c)"
  using assms
proof (induction s c rule: cond_broadcast.induct)
  case (1 s c)
  show ?case
  proof (cases "0 < wait_count c")
    case False
    then show ?thesis by (simp add: cond_broadcast.simps [of s c] queued_def)
  next
    case True
    let ?s = "s\<lparr>threads := wake (threads s) (wait_queue c ! 0)\<rparr>"
    let ?c = "c\<lparr>wait_queue := shift_queue (wait_queue c) 0 (wait_count c),
                   wait_count := wait_count c - 1\<rparr>"
    have wf: "wake_first s c = Some (?s, ?c)"
      using wake_first_Some [OF "1.prems"(2) True] .
    have q: "queued c = wait_queue c ! 0 # queued ?c"
      using queued_wake_first(1) [OF wf True "1.prems"(1)] .
    obtain c' where c': "cond_broadcast ?s ?c =
            Some (?s\<lparr>threads := foldl wake (threads ?s) (queued ?c)\<rparr>, c')"
        "wait_count c' = min 0 (wait_count ?c)"
      using "1.IH" [OF True wf refl] "1.prems" by auto
    have "cond_broadcast s c = cond_broadcast ?s ?c"
      using True wf by (simp add: cond_broadcast.simps [of s c])
    with c' q True show ?thesis by simp
  qed
qed

lemma cond_broadcast_passes_result:
  "map_option snd (cond_broadcast_passes s c) = cond_broadcast s c"
proof (induction s c rule: cond_broadcast.induct)
  case (1 s c)
  show ?case
  proof (cases "0 < wait_count c")
    case False
    then show ?thesis
      by (simp add: cond_broadcast.simps [of s c] cond_broadcast_passes.simps [of s c])
  next
    case True
    show ?thesis
    proof (cases "wake_first s c")
      case None
      with True show ?thesis
        by (simp add: cond_broadcast.simps [of s c] cond_broadcast_passes.simps [of s c])
    next
      case (Some r)
      obtain s' c' where r: "r = (s', c')" by (cases r)
      have "map_option snd (cond_broadcast_passes s' c') = cond_broadcast s' c'"
        using "1.IH" [OF True Some [unfolded r] refl] .
      then show ?thesis
        using True Some r
        by (cases "cond_broadcast_passes s' c'")
           (auto simp: cond_broadcast.simps [of s c] cond_broadcast_passes.simps [of s c])
    qed
  qed
qed

lemma map_fst_wake_steps: "map fst (wake_steps ts ws) = ws"
  by (induction ws arbitrary: ts) auto

lemma wake_steps_tables:
  "k < length ws \<Longrightarrow> snd (wake_steps ts ws ! k) = foldl wake ts (take (Suc k) ws)"
proof (induction ws arbitrary: ts k)
  case Nil
  then show ?case by simp
next
  case (Cons w ws)
  then show ?case by (cases k) auto
qed

lemma cond_broadcast_passes_fifo:
  assumes "length (wait_queue c) = MAX_THREADS" "wait_count c \<le> int MAX_THREADS"
  shows "\<exists>c'. cond_broadcast_passes s c =
            Some (wake_steps (threads s) (queued c),
                  s\<lparr>threads := foldl wake (threads s) (queued c)\<rparr>, c')"
  using assms
proof (induction s c rule: cond_broadcast.induct)
  case (1 s c)
  show ?case
  proof (cases "0 < wait_count c")
    case False
    then show ?thesis by (simp add: cond_broadcast_passes.simps [of s c] queued_def)
  next
    case True
    let ?s = "s\<lparr>threads := wake (threads s) (wait_queue c ! 0)\<rparr>"
    let ?c = "c\<lparr>wait_queue := shift_queue (wait_queue c) 0 (wait_count c),
                   wait_count := wait_count c - 1\<rparr>"
    have wf: "wake_first s c = Some (?s, ?c)"
      using wake_first_Some [OF "1.prems"(2) True] .
    have q: "queued c = wait_queue c ! 0 # queued ?c"
      using queued_wake_first(1) [OF wf True "1.prems"(1)] .
    obtain c' where c': "cond_broadcast_passes ?s ?c =
            Some (wake_steps (threads ?s) (queued ?c),
                  ?s\<lparr>threads := foldl wake (threads ?s) (queued ?c)\<rparr>, c')"
      using "1.IH" [OF True wf refl] "1.prems" by auto
    have "cond_broadcast_passes s c =
        map_option (\<lambda>(ps, r). ((wait_queue c ! 0, threads ?s) # ps, r))
          (cond_broadcast_passes ?s ?c)"
      using True wf by (simp add: cond_broadcast_passes.simps [of s c])
    then show ?thesis
      unfolding c' by (subst q, subst q) simp
  qed
qed

text \<open>
  Claim C8. For a condition variable with any number \<open>0 \<le> wait_count \<le> MAX_THREADS\<close>
  of queued tids, \<^verbatim>\<open>cond_broadcast\<close> returns with \<open>wait_count = 0\<close> and an empty
  queue. The passes of its loop wake the queued tids in FIFO order: the tids read by
  the passes are, pass by pass, the queued tids from the head on (the order in which
  \<open>enqueue_self\<close> appended them, see \<open>queued_enqueue_self\<close>), and each pass leaves
  the table with the tids up to its own woken. For every queued tid the slot that
  carries it, the first such slot, is RUNNABLE afterwards.
\<close>
theorem cond_broadcast_wakes_all:
  assumes "length (wait_queue c) = MAX_THREADS"
    and "0 \<le> wait_count c" and "wait_count c \<le> int MAX_THREADS"
    and "length (threads s) = MAX_THREADS"
  shows "\<exists>s' c'. cond_broadcast s c = Some (s', c')
           \<and> cond_broadcast_passes s c = Some (wake_steps (threads s) (queued c), s', c')
           \<and> map fst (wake_steps (threads s) (queued c)) = queued c
           \<and> wait_count c' = 0 \<and> queued c' = []
           \<and> threads s' = foldl wake (threads s) (queued c)
           \<and> current_thread s' = current_thread s \<and> next_tid s' = next_tid s
           \<and> (\<forall>w\<in>set (queued c). \<forall>j<MAX_THREADS.
                 tid (threads s ! j) = w \<and> (\<forall>i<j. tid (threads s ! i) \<noteq> w) \<longrightarrow>
                 state (threads s' ! j) = T_RUNNABLE)"
proof -
  let ?s = "s\<lparr>threads := foldl wake (threads s) (queued c)\<rparr>"
  obtain c' where p: "cond_broadcast_passes s c =
            Some (wake_steps (threads s) (queued c), ?s, c')"
    using cond_broadcast_passes_fifo [OF assms(1,3)] by blast
  have b: "cond_broadcast s c = Some (?s, c')"
    using cond_broadcast_passes_result [of s c] p by simp
  obtain c2 where c2: "cond_broadcast s c = Some (?s, c2)" "wait_count c2 = min 0 (wait_count c)"
    using cond_broadcast_drains [OF assms(1,3)] by blast
  then have w: "wait_count c' = 0" using b assms(2) by simp
  have "\<forall>w\<in>set (queued c). \<forall>j<MAX_THREADS.
          tid (threads s ! j) = w \<and> (\<forall>i<j. tid (threads s ! i) \<noteq> w) \<longrightarrow>
          state (foldl wake (threads s) (queued c) ! j) = T_RUNNABLE"
    using foldl_wake_runnable [OF assms(4)] by blast
  with p b w show ?thesis by (simp add: queued_def map_fst_wake_steps)
qed

lemma demo_cond_queued: "queued demo_cond = [3, 1]"
  by code_simp

lemma demo_wake_states:
  "state (wake (wake (threads demo_sys) 3) 1 ! 3) = T_RUNNABLE"
  "state (wake (wake (threads demo_sys) 3) 1 ! 1) = T_RUNNABLE"
  "state (threads demo_sys ! 3) = T_ZOMBIE"
  by code_simp+

theorem cond_broadcast_wakes_all_witness:
  "length (wait_queue demo_cond) = MAX_THREADS \<and> 0 \<le> wait_count demo_cond
   \<and> wait_count demo_cond \<le> int MAX_THREADS \<and> length (threads demo_sys) = MAX_THREADS
   \<and> queued demo_cond = [3, 1]
   \<and> (\<exists>s' c'. cond_broadcast demo_sys demo_cond = Some (s', c') \<and> wait_count c' = 0
         \<and> cond_broadcast_passes demo_sys demo_cond =
             Some ([(3, wake (threads demo_sys) 3), (1, wake (wake (threads demo_sys) 3) 1)],
                   s', c')
         \<and> threads s' = wake (wake (threads demo_sys) 3) 1
         \<and> state (threads s' ! 3) = T_RUNNABLE \<and> state (threads s' ! 1) = T_RUNNABLE)"
proof -
  have h: "length (wait_queue demo_cond) = MAX_THREADS" "0 \<le> wait_count demo_cond"
    "wait_count demo_cond \<le> int MAX_THREADS" "length (threads demo_sys) = MAX_THREADS"
    by (simp_all add: demo_cond_def demo_sys_def MAX_THREADS_def)
  from cond_broadcast_wakes_all [OF h] obtain s' c' where
    "cond_broadcast demo_sys demo_cond = Some (s', c')" "wait_count c' = 0"
    "cond_broadcast_passes demo_sys demo_cond =
       Some (wake_steps (threads demo_sys) (queued demo_cond), s', c')"
    "threads s' = foldl wake (threads demo_sys) (queued demo_cond)"
    by blast
  with h demo_wake_states show ?thesis by (simp add: demo_cond_queued)
qed

subsection \<open>channel_create\<close>

text \<open>
  Claim C1 says that \<^verbatim>\<open>channel_create(N)\<close> returns an initialised channel for every
  \<open>N \<ge> 1\<close> and null only when an allocation fails. The function as it stands returns
  the null pointer for every capacity, since both allocations are commented out.
\<close>
theorem channel_create_returns_null: "channel_create cap = None"
  by (simp add: channel_create_def)

subsection \<open>One RUNNING thread\<close>

lemma find_runnable_thread_Some:
  assumes "table_ok s" "find_runnable_thread s = Some n"
  shows "n < MAX_THREADS" "state (threads s ! n) = T_RUNNABLE"
proof -
  have "spec_select s = Some n" using assms find_runnable_thread_spec by simp
  then show "n < MAX_THREADS" "state (threads s ! n) = T_RUNNABLE"
    using spec_select_less by (auto simp: spec_select_def find_Some_iff)
qed

lemma find_runnable_thread_None:
  assumes "table_ok s"
  shows "find_runnable_thread s = None \<longleftrightarrow> (\<forall>i<MAX_THREADS. state (threads s ! i) \<noteq> T_RUNNABLE)"
  using assms find_runnable_thread_spec spec_select_None by simp

lemma thread_schedule_nth:
  assumes "table_ok s" "find_runnable_thread s = Some n" "i < MAX_THREADS"
  shows "state (threads (thread_schedule s) ! i) =
           (if i = n then T_RUNNING
            else if i = current_thread s \<and> state (threads s ! i) = T_RUNNING then T_RUNNABLE
            else state (threads s ! i))"
    and "tid (threads (thread_schedule s) ! i) = tid (threads s ! i)"
    and "joined_tid (threads (thread_schedule s) ! i) = joined_tid (threads s ! i)"
    and "retval (threads (thread_schedule s) ! i) = retval (threads s ! i)"
proof -
  have n: "n < MAX_THREADS" using find_runnable_thread_Some [OF assms(1,2)] by simp
  have l: "length (threads s) = MAX_THREADS" "current_thread s < MAX_THREADS"
    using assms(1) by (simp_all add: table_ok_def)
  show "state (threads (thread_schedule s) ! i) =
           (if i = n then T_RUNNING
            else if i = current_thread s \<and> state (threads s ! i) = T_RUNNING then T_RUNNABLE
            else state (threads s ! i))"
    using assms n l
    by (auto simp: thread_schedule_def Let_def set_cur_def cur_def nth_list_update)
  show "tid (threads (thread_schedule s) ! i) = tid (threads s ! i)"
    using assms n l
    by (auto simp: thread_schedule_def Let_def set_cur_def cur_def nth_list_update)
  show "joined_tid (threads (thread_schedule s) ! i) = joined_tid (threads s ! i)"
    using assms n l
    by (auto simp: thread_schedule_def Let_def set_cur_def cur_def nth_list_update)
  show "retval (threads (thread_schedule s) ! i) = retval (threads s ! i)"
    using assms n l
    by (auto simp: thread_schedule_def Let_def set_cur_def cur_def nth_list_update)
qed

lemma table_ok_thread_schedule: "table_ok s \<Longrightarrow> table_ok (thread_schedule s)"
proof (cases "find_runnable_thread s")
  case None
  assume "table_ok s"
  with None show ?thesis by (simp add: thread_schedule_def)
next
  case (Some n)
  assume ok: "table_ok s"
  then have "n < MAX_THREADS" using find_runnable_thread_Some Some by simp
  with ok Some show ?thesis
    by (simp add: thread_schedule_def table_ok_def Let_def set_cur_def)
qed

lemma table_ok_set_cur [simp]: "table_ok (set_cur s f) = table_ok s"
  by (simp add: table_ok_def set_cur_def)

lemma one_running_schedule:
  assumes "table_ok s"
    and "\<forall>i<MAX_THREADS. i \<noteq> current_thread s \<longrightarrow> state (threads s ! i) \<noteq> T_RUNNING"
    and "find_runnable_thread s = Some n"
  shows "one_running (thread_schedule s)"
proof -
  have c: "current_thread (thread_schedule s) = n"
    using thread_schedule_Some(1) [OF assms(1,3)] .
  show ?thesis
    unfolding one_running_def c
    using thread_schedule_nth(1) [OF assms(1,3)] assms(2) by auto
qed

lemma one_running_init:
  assumes "length (threads s) = MAX_THREADS"
  shows "one_running (thread_init s)"
  using assms
  by (auto simp: one_running_def thread_init_def Let_def nth_list_update MAX_THREADS_def)

lemma one_running_yield:
  assumes "table_ok s" "one_running s"
  shows "one_running (thread_yield s)"
proof -
  let ?s = "set_cur s (\<lambda>c. c\<lparr>state := T_RUNNABLE\<rparr>)"
  have l: "length (threads s) = MAX_THREADS" "current_thread s < MAX_THREADS"
    using assms(1) by (simp_all add: table_ok_def)
  have ok: "table_ok ?s" using assms(1) by simp
  have r: "state (threads ?s ! current_thread s) = T_RUNNABLE"
    using l by (simp add: set_cur_def)
  then have "find_runnable_thread ?s \<noteq> None"
    using find_runnable_thread_None [OF ok] l by auto
  then obtain n where n: "find_runnable_thread ?s = Some n" by auto
  have "\<forall>i<MAX_THREADS. i \<noteq> current_thread ?s \<longrightarrow> state (threads ?s ! i) \<noteq> T_RUNNING"
    using assms(2) l by (auto simp: one_running_def set_cur_def)
  then show ?thesis
    unfolding thread_yield_def using one_running_schedule [OF ok _ n] by blast
qed

lemma one_running_eval:
  assumes "length (threads s) = MAX_THREADS"
  shows "one_running s \<longleftrightarrow>
           map (\<lambda>t. state t = T_RUNNING) (threads s) = map (\<lambda>i. i = current_thread s) [0..<MAX_THREADS]"
  unfolding one_running_def list_eq_iff_nth_eq using assms by auto

lemma two_sys_facts:
  "length (threads two_sys) = 16" "current_thread two_sys = 0"
  "map (\<lambda>t. state t = T_RUNNING) (threads two_sys) = map (\<lambda>i. i = current_thread two_sys) [0..<MAX_THREADS]"
  "state (threads two_sys ! 1) = T_RUNNABLE"
  "current_thread (thread_schedule two_sys) = 1"
  "length (threads zero_sys) = 16"
  by code_simp+

lemma two_sys_created: "thread_create boot_sys 7 0 = Some (two_sys, 1)"
  by code_simp

lemma both_joining_facts:
  "current_thread both_joining = 1" "state (threads both_joining ! 1) = T_SLEEPING"
  "snd (thread_join two_sys 1) = Suspend 1" "snd (thread_join main_joining 0) = Suspend 0"
  "length (threads main_joining) = 16"
  "map (\<lambda>t. state t = T_RUNNING) (threads main_joining) = map (\<lambda>i. i = current_thread main_joining) [0..<MAX_THREADS]"
  by code_simp+

text \<open>
  Two threads that join each other: when the second enters the scheduler nothing is
  RUNNABLE, \<^verbatim>\<open>thread_schedule\<close> returns to it, and no slot is RUNNING.
\<close>

theorem one_running_counterexample:
  "thread_create boot_sys 7 0 = Some (two_sys, 1)
   \<and> thread_join two_sys 1 = (main_joining, Suspend 1) \<and> one_running main_joining
   \<and> snd (thread_join main_joining 0) = Suspend 0
   \<and> \<not> one_running (fst (thread_join main_joining 0))"
proof -
  have "state (threads both_joining ! 1) = T_RUNNING \<longleftrightarrow> 1 = current_thread both_joining"
    if "one_running both_joining"
    using that unfolding one_running_def by (simp add: MAX_THREADS_def)
  then have "\<not> one_running both_joining"
    using both_joining_facts(1,2) by auto
  moreover have "one_running main_joining"
    using one_running_eval [of main_joining] both_joining_facts(5,6) by (simp add: MAX_THREADS_def)
  moreover have "thread_join two_sys 1 = (main_joining, Suspend 1)"
    using both_joining_facts(3) by (simp add: main_joining_def prod_eq_iff)
  ultimately show ?thesis
    using both_joining_facts(4) two_sys_created by (simp add: both_joining_def)
qed

subsection \<open>Joining the bootstrap thread\<close>

lemma thread_schedule_sleeper:
  assumes "table_ok s" "state (cur s) \<noteq> T_RUNNABLE" "state (cur s) \<noteq> T_RUNNING"
  shows "threads (thread_schedule s) ! current_thread s = cur s"
proof (cases "find_runnable_thread s")
  case None
  then show ?thesis by (simp add: thread_schedule_def cur_def)
next
  case (Some n)
  then have "n \<noteq> current_thread s" "n < MAX_THREADS"
    using find_runnable_thread_Some [OF assms(1) Some] assms(2) by (auto simp: cur_def)
  then show ?thesis
    using Some assms by (simp add: thread_schedule_def Let_def cur_def table_ok_def)
qed

text \<open>
  Claim C9 says that after \<^verbatim>\<open>thread_init\<close> a \<^verbatim>\<open>thread_join(0)\<close> by another thread
  finds the bootstrap TCB, does not return null, and blocks the caller. The lookup does
  succeed as long as slot 0 carries tid 0 in a state other than UNUSED; the caller
  records \<open>joined_tid = 0\<close>, becomes SLEEPING and enters the scheduler only if the
  bootstrap thread is not a zombie. If it is one (it called \<^verbatim>\<open>thread_exit\<close>), the
  call returns its \<open>retval\<close> at once and reaps slot 0, as the exited bootstrap
  thread below shows.
\<close>
theorem thread_join_bootstrap:
  assumes "table_ok s" and "tid (threads s ! 0) = 0" and "state (threads s ! 0) \<noteq> T_UNUSED"
  shows "for_first (\<lambda>i. tid (threads s ! i) = 0 \<and> state (threads s ! i) \<noteq> T_UNUSED)
            0 MAX_THREADS = Some 0
    \<and> (state (threads s ! 0) \<noteq> T_ZOMBIE \<longrightarrow>
          thread_join s 0 =
            (thread_schedule (set_cur s (\<lambda>c. c\<lparr>joined_tid := 0, state := T_SLEEPING\<rparr>)),
             Suspend 0)
          \<and> threads (fst (thread_join s 0)) ! current_thread s =
              (cur s)\<lparr>joined_tid := 0, state := T_SLEEPING\<rparr>)
    \<and> (state (threads s ! 0) = T_ZOMBIE \<longrightarrow>
          thread_join s 0 =
            (s\<lparr>threads := (threads s)[0 := (threads s ! 0)\<lparr>state := T_UNUSED, tid := 0\<rparr>]\<rparr>,
             Return (retval (threads s ! 0))))"
proof -
  have l: "length (threads s) = MAX_THREADS" "current_thread s < MAX_THREADS"
    using assms(1) by (simp_all add: table_ok_def)
  have f: "for_first (\<lambda>i. tid (threads s ! i) = 0 \<and> state (threads s ! i) \<noteq> T_UNUSED)
            0 MAX_THREADS = Some 0"
    using assms(2,3) by (simp add: for_first_Some MAX_THREADS_def)
  let ?s = "set_cur s (\<lambda>c. c\<lparr>joined_tid := 0, state := T_SLEEPING\<rparr>)"
  have e: "set_cur (set_cur s (\<lambda>c. c\<lparr>joined_tid := 0\<rparr>)) (\<lambda>c. c\<lparr>state := T_SLEEPING\<rparr>) = ?s"
    using l by (simp add: set_cur_def cur_def)
  have c: "cur ?s = (cur s)\<lparr>joined_tid := 0, state := T_SLEEPING\<rparr>" "current_thread ?s = current_thread s"
    using l by (simp_all add: set_cur_def cur_def)
  have "threads (thread_schedule ?s) ! current_thread ?s = cur ?s"
    using thread_schedule_sleeper [of ?s] assms(1) c by simp
  then have b: "threads (thread_schedule ?s) ! current_thread s =
      (cur s)\<lparr>joined_tid := 0, state := T_SLEEPING\<rparr>"
    using c by simp
  show ?thesis
    using f b e by (simp add: thread_join_def thread_join_loop_def)
qed

lemma join_demo_facts:
  "state (threads (thread_schedule two_sys) ! 0) = T_RUNNABLE"
  "tid (threads (thread_schedule two_sys) ! 0) = 0"
  "length (threads (thread_schedule two_sys)) = 16"
  "current_thread (thread_schedule two_sys) = 1"
  by code_simp+

theorem thread_join_bootstrap_witness:
  "table_ok (thread_schedule two_sys) \<and> tid (threads (thread_schedule two_sys) ! 0) = 0
   \<and> state (threads (thread_schedule two_sys) ! 0) \<noteq> T_UNUSED
   \<and> current_thread (thread_schedule two_sys) = 1
   \<and> snd (thread_join (thread_schedule two_sys) 0) = Suspend 0
   \<and> state (threads (fst (thread_join (thread_schedule two_sys) 0)) ! 1) = T_SLEEPING
   \<and> joined_tid (threads (fst (thread_join (thread_schedule two_sys) 0)) ! 1) = 0"
proof -
  have ok: "table_ok (thread_schedule two_sys)"
    using join_demo_facts(3,4) by (simp add: table_ok_def MAX_THREADS_def)
  have u: "state (threads (thread_schedule two_sys) ! 0) \<noteq> T_UNUSED"
    "state (threads (thread_schedule two_sys) ! 0) \<noteq> T_ZOMBIE"
    using join_demo_facts(1) by simp_all
  let ?X = "thread_schedule two_sys"
  from thread_join_bootstrap [OF ok join_demo_facts(2) u(1)] u(2)
  have j: "thread_join ?X 0 =
        (thread_schedule (set_cur ?X (\<lambda>c. c\<lparr>joined_tid := 0, state := T_SLEEPING\<rparr>)), Suspend 0)"
    and t: "threads (fst (thread_join ?X 0)) ! current_thread ?X =
        (cur ?X)\<lparr>joined_tid := 0, state := T_SLEEPING\<rparr>"
    by blast+
  have "snd (thread_join ?X 0) = Suspend 0" by (simp only: j snd_conv)
  moreover have "state (threads (fst (thread_join ?X 0)) ! 1) = T_SLEEPING"
    "joined_tid (threads (fst (thread_join ?X 0)) ! 1) = 0"
    using t unfolding join_demo_facts(4) by simp_all
  ultimately show ?thesis using ok u join_demo_facts(2,4) by blast
qed

lemma main_exited_facts:
  "current_thread main_exited = 1" "state (threads main_exited ! 1) = T_RUNNING"
  "tid (threads main_exited ! 0) = 0" "state (threads main_exited ! 0) = T_ZOMBIE"
  "snd (thread_join main_exited 0) = Return 0"
  "state (threads (fst (thread_join main_exited 0)) ! 1) = T_RUNNING"
  "joined_tid (threads (fst (thread_join main_exited 0)) ! 1) = - 1"
  "state (threads (fst (thread_join main_exited 0)) ! 0) = T_UNUSED"
  by code_simp+

text \<open>
  The bootstrap thread has created a thread and called \<^verbatim>\<open>thread_exit(0)\<close>; the other
  thread then calls \<^verbatim>\<open>thread_join(0)\<close>: the call returns null and the caller neither
  sleeps nor records the tid.
\<close>

theorem thread_join_bootstrap_counterexample:
  "thread_create boot_sys 7 0 = Some (two_sys, 1) \<and> thread_exit two_sys 0 = main_exited
   \<and> current_thread main_exited = 1 \<and> state (threads main_exited ! 1) = T_RUNNING
   \<and> tid (threads main_exited ! 0) = 0 \<and> state (threads main_exited ! 0) \<noteq> T_UNUSED
   \<and> snd (thread_join main_exited 0) = Return 0
   \<and> state (threads (fst (thread_join main_exited 0)) ! 1) \<noteq> T_SLEEPING
   \<and> joined_tid (threads (fst (thread_join main_exited 0)) ! 1) \<noteq> 0"
  using main_exited_facts two_sys_created by (simp add: main_exited_def)

subsection \<open>The mutex invariant\<close>

lemma mutex_init_ok: "mutex_ok (mutex_init m)"
  by (simp add: mutex_ok_def mutex_inv_def mutex_init_def queued_def)

lemma mutex_unlock_ok:
  assumes "mutex_ok m" "mutex_unlock s m = Some (s', m')"
  shows "mutex_ok m'"
proof (cases "owner_tid m \<noteq> tid (cur s)")
  case True
  then show ?thesis using assms by (simp add: mutex_unlock_def)
next
  case False
  note own = this
  have l: "length (wait_queue m) = MAX_THREADS" using assms(1) by (simp add: mutex_ok_def)
  show ?thesis
  proof (cases "0 < wait_count m")
    case True
    then obtain s1 m1 where w: "wake_first s m = Some (s1, m1)"
      and m': "m' = m1\<lparr>locked := 0, owner_tid := - 1\<rparr>"
      using assms(2) own by (auto simp: mutex_unlock_def split: option.splits)
    have q: "queued m = wait_queue m ! 0 # queued m1" "length (wait_queue m1) = MAX_THREADS"
      using queued_wake_first [OF w True l] by simp_all
    have "queued m' = queued m1" using m' by (simp add: queued_def)
    with q have "set (queued m') \<subseteq> set (queued m)" by auto
    then have p: "\<forall>t\<in>set (queued m'). 0 \<le> t" using assms(1) by (auto simp: mutex_ok_def)
    then have "- 1 \<notin> set (queued m')" by force
    with p show ?thesis
      using m' q(2) by (simp add: mutex_ok_def mutex_inv_def)
  next
    case False
    then have m': "m' = m\<lparr>locked := 0, owner_tid := - 1\<rparr>"
      using assms(2) own by (auto simp: mutex_unlock_def)
    then have "queued m' = queued m" by (simp add: queued_def)
    then have p: "\<forall>t\<in>set (queued m'). 0 \<le> t" using assms(1) by (auto simp: mutex_ok_def)
    then have "- 1 \<notin> set (queued m')" by force
    with p show ?thesis
      using m' assms(1) by (simp add: mutex_ok_def mutex_inv_def)
  qed
qed

lemma mutex_lock_take_ok:
  assumes "mutex_ok m" "mutex_lock s m = Some (s', m', r)" "locked m = 0"
    "0 \<le> tid (cur s)" "tid (cur s) \<notin> set (queued m)"
  shows "r = Return () \<and> s' = s \<and> mutex_ok m' \<and> locked m' = 1 \<and> owner_tid m' = tid (cur s)"
proof -
  have m': "m' = m\<lparr>locked := 1, owner_tid := tid (cur s)\<rparr>" "r = Return ()" "s' = s"
    using assms(2,3) by (auto simp: mutex_lock_def)
  then have "queued m' = queued m" by (simp add: queued_def)
  then show ?thesis
    using assms(1,4,5) m' by (auto simp: mutex_ok_def mutex_inv_def)
qed

lemma mutex_lock_wait_ok:
  assumes "mutex_ok m" "mutex_lock s m = Some (s', m', r)" "locked m \<noteq> 0"
    "0 \<le> tid (cur s)" "tid (cur s) \<noteq> owner_tid m"
  shows "r = Suspend () \<and> mutex_ok m' \<and> queued m' = queued m @ [tid (cur s)]
     \<and> locked m' = locked m \<and> owner_tid m' = owner_tid m"
proof -
  have l: "length (wait_queue m) = MAX_THREADS" using assms(1) by (simp add: mutex_ok_def)
  from assms(2,3) have e: "enqueue_self s m = Some m'" and r: "r = Suspend ()"
    by (auto simp: mutex_lock_def split: option.splits)
  have q: "queued m' = queued m @ [tid (cur s)]" "length (wait_queue m') = MAX_THREADS"
    using queued_enqueue_self [OF e l] by simp_all
  have f: "locked m' = locked m" "owner_tid m' = owner_tid m"
    using e by (auto simp: enqueue_self_def split: if_splits)
  show ?thesis
    using assms(1,4,5) q f r by (auto simp: mutex_ok_def mutex_inv_def)
qed



lemma mutex_ok_inv: "mutex_ok m \<Longrightarrow> mutex_inv m"
  by (simp add: mutex_ok_def)

text \<open>
  Claim C4 says that the predicate \<open>mutex_inv\<close> holds after \<^verbatim>\<open>mutex_init\<close> and is
  preserved by every \<^verbatim>\<open>mutex_lock\<close> and \<^verbatim>\<open>mutex_unlock\<close>. A \<^verbatim>\<open>mutex_lock\<close>
  by the owner itself queues the owner's tid, as the relocked mutex below shows. What
  holds, for a mutex whose queued tids are non-negative: the predicate is true after
  \<^verbatim>\<open>mutex_init\<close>, is preserved by every \<^verbatim>\<open>mutex_unlock\<close>, and is preserved by a
  \<^verbatim>\<open>mutex_lock\<close> whose caller has a non-negative tid, is not the owner when the
  mutex is locked, and is not queued when the mutex is free.
\<close>
theorem mutex_invariant:
  assumes "mutex_ok m"
  shows "mutex_inv (mutex_init m0) \<and> mutex_ok (mutex_init m0)
    \<and> (mutex_unlock s m = Some (s1, m1) \<longrightarrow> mutex_inv m1 \<and> mutex_ok m1)
    \<and> (mutex_lock s m = Some (s2, m2, r) \<and> 0 \<le> tid (cur s)
         \<and> (locked m = 0 \<longrightarrow> tid (cur s) \<notin> set (queued m))
         \<and> (locked m \<noteq> 0 \<longrightarrow> tid (cur s) \<noteq> owner_tid m) \<longrightarrow> mutex_inv m2 \<and> mutex_ok m2)"
proof -
  have 1: "mutex_inv (mutex_init m0) \<and> mutex_ok (mutex_init m0)"
    using mutex_init_ok mutex_ok_inv by blast
  have 2: "mutex_unlock s m = Some (s1, m1) \<longrightarrow> mutex_inv m1 \<and> mutex_ok m1"
    using mutex_unlock_ok [OF assms] mutex_ok_inv by blast
  have 3: "mutex_lock s m = Some (s2, m2, r) \<and> 0 \<le> tid (cur s)
         \<and> (locked m = 0 \<longrightarrow> tid (cur s) \<notin> set (queued m))
         \<and> (locked m \<noteq> 0 \<longrightarrow> tid (cur s) \<noteq> owner_tid m) \<longrightarrow> mutex_inv m2 \<and> mutex_ok m2"
  proof (cases "locked m = 0")
    case True
    then show ?thesis using mutex_lock_take_ok [OF assms, of s s2 m2 r] mutex_ok_inv by blast
  next
    case False
    then show ?thesis using mutex_lock_wait_ok [OF assms, of s s2 m2 r] mutex_ok_inv by blast
  qed
  from 1 2 3 show ?thesis by blast
qed


lemma mutex_demo_facts:
  "mutex_ok held_mutex"
  "locked held_mutex = 1" "owner_tid held_mutex = 0" "queued held_mutex = []"
  "tid (cur boot_sys) = 0"
  "mutex_lock boot_sys held_mutex \<noteq> None"
  "queued relocked_mutex = [0]" "owner_tid relocked_mutex = 0" "locked relocked_mutex = 1"
  "tid (cur (thread_schedule two_sys)) = 1"
  "mutex_lock (thread_schedule two_sys) held_mutex \<noteq> None"
  "queued waited_mutex = [1]"
  "tid (cur two_sys) = 0"
  "mutex_unlock two_sys held_mutex \<noteq> None"
  "locked released_mutex = 0" "owner_tid released_mutex = - 1"
  by code_simp+

theorem mutex_invariant_witness:
  "mutex_ok held_mutex \<and> mutex_inv (mutex_init demo_mutex)
   \<and> mutex_unlock two_sys held_mutex \<noteq> None \<and> mutex_inv released_mutex
   \<and> locked released_mutex = 0
   \<and> mutex_lock (thread_schedule two_sys) held_mutex \<noteq> None \<and> mutex_inv waited_mutex
   \<and> queued waited_mutex = [1] \<and> owner_tid waited_mutex = 0"
proof -
  obtain s1 m1 where u: "mutex_unlock two_sys held_mutex = Some (s1, m1)"
    using mutex_demo_facts(14) by fastforce
  obtain s2 m2 r where l: "mutex_lock (thread_schedule two_sys) held_mutex = Some (s2, m2, r)"
    using mutex_demo_facts(11) by fastforce
  have m1: "released_mutex = m1" using u by (simp add: released_mutex_def)
  have m2: "waited_mutex = m2" using l by (simp add: waited_mutex_def)
  have i: "mutex_inv (mutex_init demo_mutex)" "mutex_inv m1"
    using mutex_invariant [OF mutex_demo_facts(1), of demo_mutex two_sys s1 m1] u by blast+
  have c: "0 \<le> tid (cur (thread_schedule two_sys))"
    "locked held_mutex \<noteq> 0" "tid (cur (thread_schedule two_sys)) \<noteq> owner_tid held_mutex"
    using mutex_demo_facts(2,3,10) by simp_all
  have "mutex_inv m2 \<and> mutex_ok m2"
    using mutex_invariant [OF mutex_demo_facts(1), of demo_mutex "thread_schedule two_sys" s1 m1 s2 m2 r]
      l c by blast
  then have o: "owner_tid waited_mutex = 0"
    using mutex_lock_wait_ok [OF mutex_demo_facts(1) l c(2) c(1) c(3)] m2 mutex_demo_facts(3) by simp
  show ?thesis
    using i \<open>mutex_inv m2 \<and> mutex_ok m2\<close> o m1 m2 mutex_demo_facts by simp
qed

text \<open>
  The bootstrap thread holds the mutex and locks it again: its tid, which is
  \<open>owner_tid\<close>, is now in the wait queue.
\<close>

theorem mutex_invariant_counterexample:
  "mutex_inv held_mutex \<and> tid (cur boot_sys) = owner_tid held_mutex
   \<and> mutex_lock boot_sys held_mutex \<noteq> None \<and> \<not> mutex_inv relocked_mutex"
proof -
  have "\<not> mutex_inv relocked_mutex"
    using mutex_demo_facts(7,8) by (simp add: mutex_inv_def)
  then show ?thesis
    using mutex_ok_inv [OF mutex_demo_facts(1)] mutex_demo_facts(3,5,6) by simp
qed

subsection \<open>The semaphore counter\<close>

lemma sem_init_inv: "0 \<le> v \<Longrightarrow> sem_inv (sem_init sem v)"
  by (simp add: sem_inv_def sem_init_def)

lemma sem_wait_inv:
  assumes "sem_inv sem" "sem_wait s sem = Some (s', sem', r)"
  shows "sem_inv sem'"
  using assms
  by (auto simp: sem_inv_def sem_wait_def enqueue_self_def Let_def split: if_splits option.splits)

lemma sem_post_inv:
  assumes "sem_inv sem" "sem_post s sem = Some (s', sem')"
  shows "sem_inv sem'"
  using assms
  by (auto simp: sem_inv_def sem_post_def wake_first_def Let_def split: if_splits)

lemma sem_run_inv:
  assumes "sem_inv sem" "sem_run ops s sem = Some (s', sem')"
  shows "sem_inv sem'"
  using assms
proof (induction ops arbitrary: s sem)
  case Nil
  then show ?case by simp
next
  case (Cons op ops)
  show ?case
  proof (cases op)
    case Op_wait
    then obtain s1 sem1 r where w: "sem_wait s sem = Some (s1, sem1, r)"
      and r: "sem_run ops s1 sem1 = Some (s', sem')"
      using Cons.prems(2) by (auto split: option.splits)
    show ?thesis using Cons.IH [OF sem_wait_inv [OF Cons.prems(1) w] r] .
  next
    case Op_post
    then obtain s1 sem1 where w: "sem_post s sem = Some (s1, sem1)"
      and r: "sem_run ops s1 sem1 = Some (s', sem')"
      using Cons.prems(2) by (auto split: option.splits)
    show ?thesis using Cons.IH [OF sem_post_inv [OF Cons.prems(1) w] r] .
  next
    case Op_yield
    then show ?thesis using Cons.IH [OF Cons.prems(1)] Cons.prems(2) by simp
  qed
qed

lemma sem_wait_blocks:
  assumes "sem_wait s sem = Some (s', sem', r)" "semaphore.count sem \<le> 0"
    "table_ok s" "length (wait_queue sem) = MAX_THREADS"
  shows "r = Suspend ()" "queued sem' = queued sem @ [tid (cur s)]"
    "s' = thread_schedule (set_cur s (\<lambda>c. c\<lparr>state := T_SLEEPING\<rparr>))"
    "threads s' ! current_thread s = (cur s)\<lparr>state := T_SLEEPING\<rparr>"
proof -
  let ?sem = "sem\<lparr>semaphore.count := semaphore.count sem - 1\<rparr>"
  let ?s = "set_cur s (\<lambda>c. c\<lparr>state := T_SLEEPING\<rparr>)"
  from assms(1,2) have e: "enqueue_self s ?sem = Some sem'" and r: "r = Suspend ()"
    and s': "s' = thread_schedule ?s"
    by (auto simp: sem_wait_def Let_def split: if_splits option.splits)
  show "r = Suspend ()" "s' = thread_schedule ?s" using r s' by simp_all
  have "queued sem' = queued ?sem @ [tid (cur s)]"
    using queued_enqueue_self(1) [OF e] assms(4) by simp
  then show "queued sem' = queued sem @ [tid (cur s)]" by (simp add: queued_def)
  have l: "length (threads s) = MAX_THREADS" "current_thread s < MAX_THREADS"
    using assms(3) by (simp_all add: table_ok_def)
  have c: "cur ?s = (cur s)\<lparr>state := T_SLEEPING\<rparr>" "current_thread ?s = current_thread s"
    using l by (simp_all add: set_cur_def cur_def)
  have "threads (thread_schedule ?s) ! current_thread ?s = cur ?s"
    using thread_schedule_sleeper [of ?s] assms(3) c by simp
  then show "threads s' ! current_thread s = (cur s)\<lparr>state := T_SLEEPING\<rparr>"
    using c s' by simp
qed

lemma schedule_sleeper_switch:
  assumes "table_ok s" "state (cur s) = T_SLEEPING"
  shows "(\<exists>i<MAX_THREADS. state (threads s ! i) = T_RUNNABLE) \<longrightarrow>
           current_thread (thread_schedule s) \<noteq> current_thread s"
    and "(\<forall>i<MAX_THREADS. state (threads s ! i) \<noteq> T_RUNNABLE) \<longrightarrow> thread_schedule s = s"
proof -
  show "(\<exists>i<MAX_THREADS. state (threads s ! i) = T_RUNNABLE) \<longrightarrow>
           current_thread (thread_schedule s) \<noteq> current_thread s"
  proof
    assume "\<exists>i<MAX_THREADS. state (threads s ! i) = T_RUNNABLE"
    then have "find_runnable_thread s \<noteq> None"
      using find_runnable_thread_None [OF assms(1)] by auto
    then obtain n where n: "find_runnable_thread s = Some n" by auto
    then have "state (threads s ! n) = T_RUNNABLE"
      using find_runnable_thread_Some [OF assms(1)] by simp
    then have "n \<noteq> current_thread s" using assms(2) by (auto simp: cur_def)
    then show "current_thread (thread_schedule s) \<noteq> current_thread s"
      using thread_schedule_Some(1) [OF assms(1) n] by simp
  qed
  show "(\<forall>i<MAX_THREADS. state (threads s ! i) \<noteq> T_RUNNABLE) \<longrightarrow> thread_schedule s = s"
    using find_runnable_thread_None [OF assms(1)] by (auto simp: thread_schedule_def)
qed


text \<open>
  Claim C5 says that \<open>wait_count = max(0, - count)\<close> across any interleaving of
  \<^verbatim>\<open>sem_wait\<close> and \<^verbatim>\<open>sem_post\<close>, that this number is the number of pending
  \<^verbatim>\<open>sem_wait\<close> calls, and that some \<^verbatim>\<open>sem_wait\<close> is blocked whenever the queue is
  not empty. The equation holds after \<^verbatim>\<open>sem_init\<close> with a value \<open>\<ge> 0\<close> and after
  every run of \<^verbatim>\<open>sem_wait\<close>, \<^verbatim>\<open>sem_post\<close> and \<^verbatim>\<open>thread_yield\<close> steps. A
  \<^verbatim>\<open>sem_wait\<close> that finds \<open>count \<le> 0\<close> appends the caller's tid to the queue and
  puts the caller to sleep; the caller is then blocked (another thread is current) if
  some other slot is RUNNABLE. If none is, \<^verbatim>\<open>thread_schedule\<close> returns to the
  caller, which leaves \<^verbatim>\<open>sem_wait\<close> with its tid still queued: the lone thread
  below shows a queue that is not empty while no thread is blocked.
\<close>
theorem semaphore_wait_count:
  assumes "sem_inv sem"
  shows "(0 \<le> v \<longrightarrow> sem_inv (sem_init sem0 v))
    \<and> (sem_run ops s sem = Some (s1, sem1) \<longrightarrow> sem_inv sem1)
    \<and> (sem_wait s sem = Some (s2, sem2, r) \<and> semaphore.count sem \<le> 0 \<and> table_ok s
         \<and> length (wait_queue sem) = MAX_THREADS \<longrightarrow>
          r = Suspend () \<and> queued sem2 = queued sem @ [tid (cur s)]
          \<and> threads s2 ! current_thread s = (cur s)\<lparr>state := T_SLEEPING\<rparr>
          \<and> ((\<exists>i<MAX_THREADS. i \<noteq> current_thread s \<and> state (threads s ! i) = T_RUNNABLE) \<longrightarrow>
                current_thread s2 \<noteq> current_thread s)
          \<and> ((\<forall>i<MAX_THREADS. i \<noteq> current_thread s \<longrightarrow> state (threads s ! i) \<noteq> T_RUNNABLE) \<longrightarrow>
                current_thread s2 = current_thread s))"
proof -
  have 1: "0 \<le> v \<longrightarrow> sem_inv (sem_init sem0 v)" using sem_init_inv by simp
  have 2: "sem_run ops s sem = Some (s1, sem1) \<longrightarrow> sem_inv sem1"
    using sem_run_inv [OF assms] by simp
  have 3: "r = Suspend () \<and> queued sem2 = queued sem @ [tid (cur s)]
          \<and> threads s2 ! current_thread s = (cur s)\<lparr>state := T_SLEEPING\<rparr>
          \<and> ((\<exists>i<MAX_THREADS. i \<noteq> current_thread s \<and> state (threads s ! i) = T_RUNNABLE) \<longrightarrow>
                current_thread s2 \<noteq> current_thread s)
          \<and> ((\<forall>i<MAX_THREADS. i \<noteq> current_thread s \<longrightarrow> state (threads s ! i) \<noteq> T_RUNNABLE) \<longrightarrow>
                current_thread s2 = current_thread s)"
    if w: "sem_wait s sem = Some (s2, sem2, r)" and c: "semaphore.count sem \<le> 0"
      and ok: "table_ok s" and l: "length (wait_queue sem) = MAX_THREADS"
  proof -
    let ?s = "set_cur s (\<lambda>c. c\<lparr>state := T_SLEEPING\<rparr>)"
    note b = sem_wait_blocks [OF w c ok l]
    have t: "length (threads s) = MAX_THREADS" "current_thread s < MAX_THREADS"
      using ok by (simp_all add: table_ok_def)
    have ok': "table_ok ?s" using ok by simp
    have sl: "state (cur ?s) = T_SLEEPING" "current_thread ?s = current_thread s"
      using t by (simp_all add: set_cur_def cur_def)
    have st: "state (threads ?s ! i) =
        (if i = current_thread s then T_SLEEPING else state (threads s ! i))" if "i < MAX_THREADS" for i
      using that t by (simp add: set_cur_def nth_list_update)
    have a: "current_thread s2 \<noteq> current_thread s"
      if "\<exists>i<MAX_THREADS. i \<noteq> current_thread s \<and> state (threads s ! i) = T_RUNNABLE"
    proof -
      from that have "\<exists>i<MAX_THREADS. state (threads ?s ! i) = T_RUNNABLE"
        using st by auto
      then show ?thesis using schedule_sleeper_switch(1) [OF ok' sl(1)] sl(2) b(3) by simp
    qed
    have n: "current_thread s2 = current_thread s"
      if "\<forall>i<MAX_THREADS. i \<noteq> current_thread s \<longrightarrow> state (threads s ! i) \<noteq> T_RUNNABLE"
    proof -
      from that have "\<forall>i<MAX_THREADS. state (threads ?s ! i) \<noteq> T_RUNNABLE"
        using st by auto
      then show ?thesis using schedule_sleeper_switch(2) [OF ok' sl(1)] sl(2) b(3) by simp
    qed
    from b(1,2,4) a n show ?thesis by blast
  qed
  from 1 2 3 show ?thesis by blast
qed

lemma sem_demo_facts:
  "sem_inv zero_sem" "semaphore.count zero_sem = 0"
  "length (wait_queue zero_sem) = 16"
  "sem_run demo_ops two_sys zero_sem \<noteq> None"
  "wait_count demo_run_sem = 0" "semaphore.count demo_run_sem = 0"
  "sem_wait two_sys zero_sem \<noteq> None"
  "current_thread parked_sys = 1" "state (threads parked_sys ! 0) = T_SLEEPING"
  "sem_wait boot_sys zero_sem \<noteq> None"
  "queued lone_wait_sem = [0]" "wait_count lone_wait_sem = 1" "semaphore.count lone_wait_sem = - 1"
  "current_thread lone_wait_sys = 0" "tid (threads lone_wait_sys ! 0) = 0"
  "state (threads lone_wait_sys ! 0) = T_SLEEPING"
  "current_thread (thread_yield lone_wait_sys) = 0"
  "state (threads (thread_yield lone_wait_sys) ! 0) = T_RUNNING"
  "T_SLEEPING \<notin> set (map state (threads (thread_yield lone_wait_sys)))"
  by code_simp+


theorem semaphore_wait_count_witness:
  "sem_inv zero_sem \<and> sem_inv (sem_init zero_sem 3)
   \<and> sem_run demo_ops two_sys zero_sem \<noteq> None \<and> sem_inv demo_run_sem
   \<and> sem_wait two_sys zero_sem \<noteq> None \<and> semaphore.count zero_sem \<le> 0 \<and> table_ok two_sys
   \<and> length (wait_queue zero_sem) = MAX_THREADS
   \<and> current_thread parked_sys \<noteq> current_thread two_sys
   \<and> state (threads parked_sys ! current_thread two_sys) = T_SLEEPING"
proof -
  obtain s1 sem1 where run: "sem_run demo_ops two_sys zero_sem = Some (s1, sem1)"
    using sem_demo_facts(4) by fastforce
  obtain s2 sem2 r where w: "sem_wait two_sys zero_sem = Some (s2, sem2, r)"
    using sem_demo_facts(7) by fastforce
  have d: "demo_run_sem = sem1" "parked_sys = s2"
    using run w by (simp_all add: demo_run_sem_def parked_sys_def)
  have ok: "table_ok two_sys"
    using two_sys_facts(1,2) by (simp add: table_ok_def MAX_THREADS_def)
  have l: "length (wait_queue zero_sem) = MAX_THREADS"
    using sem_demo_facts(3) by (simp add: MAX_THREADS_def)
  have c: "semaphore.count zero_sem \<le> 0" using sem_demo_facts(2) by simp
  have e: "\<exists>i<MAX_THREADS. i \<noteq> current_thread two_sys \<and> state (threads two_sys ! i) = T_RUNNABLE"
    using two_sys_facts(2,4) by (intro exI [of _ 1]) (simp add: MAX_THREADS_def)
  from semaphore_wait_count [OF sem_demo_facts(1), of 3 zero_sem demo_ops two_sys s1 sem1 s2 sem2 r]
    run w ok l c e
  have "sem_inv (sem_init zero_sem 3)" "sem_inv sem1"
    "current_thread s2 \<noteq> current_thread two_sys"
    "threads s2 ! current_thread two_sys = (cur two_sys)\<lparr>state := T_SLEEPING\<rparr>"
    by simp_all
  then show ?thesis
    using sem_demo_facts(1,4,7) ok l c d by simp
qed

text \<open>
  The bootstrap thread alone calls \<^verbatim>\<open>sem_wait\<close> on a semaphore of value 0, then
  \<^verbatim>\<open>thread_yield\<close>: the queue holds its tid and \<open>count = - 1\<close>, yet it is RUNNING
  and no thread sleeps.
\<close>

theorem semaphore_wait_count_counterexample:
  "sem_inv zero_sem \<and> sem_wait boot_sys zero_sem \<noteq> None
   \<and> wait_count lone_wait_sem = 1 \<and> semaphore.count lone_wait_sem = - 1
   \<and> current_thread lone_wait_sys = 0
   \<and> state (threads (thread_yield lone_wait_sys) ! 0) = T_RUNNING
   \<and> T_SLEEPING \<notin> set (map state (threads (thread_yield lone_wait_sys)))"
  using sem_demo_facts by simp

subsection \<open>Closing a channel\<close>

lemma same_tids_refl [simp]: "same_tids s s"
  by (simp add: same_tids_def)

































subsection \<open>The wake of a dequeued tid\<close>

lemma tids_unique_first:
  assumes "tids_unique s" "j < MAX_THREADS" "state (threads s ! j) \<noteq> T_UNUSED"
  shows "\<forall>i<j. tid (threads s ! i) \<noteq> tid (threads s ! j)"
  using assms by (auto simp: tids_unique_def)

lemma tids_unique_init:
  assumes "length (threads s) = MAX_THREADS"
  shows "tids_unique (thread_init s)"
  using assms
  by (auto simp: tids_unique_def thread_init_def Let_def nth_list_update MAX_THREADS_def)

lemma tids_unique_create:
  assumes "tids_unique s" "length (threads s) = MAX_THREADS" "thread_create s f a = Some (s', r)"
  shows "tids_unique s'"
proof (cases "for_first (\<lambda>i. state (threads s ! i) = T_UNUSED) 0 MAX_THREADS")
  case None
  then show ?thesis using assms by (simp add: thread_create_def)
next
  case (Some t)
  then have t: "t < MAX_THREADS" by (simp add: for_first_Some)
  have s': "s' = s\<lparr>threads := (threads s)[t := (threads s ! t)
                          \<lparr>tid := next_tid s, state := T_RUNNABLE, start_routine := f,
                           arg := a, retval := 0, joined_tid := - 1\<rparr>],
                    next_tid := next_tid s + 1\<rparr>"
    using assms(3) Some by (auto simp: thread_create_def split: if_splits)
  have lt: "\<And>i. i < MAX_THREADS \<Longrightarrow> tid (threads s ! i) < next_tid s"
    using assms(1) by (simp add: tids_unique_def)
  have dup: "\<And>i j. j < MAX_THREADS \<Longrightarrow> i < j \<Longrightarrow> tid (threads s ! i) = tid (threads s ! j)
      \<Longrightarrow> state (threads s ! j) = T_UNUSED"
    using assms(1) unfolding tids_unique_def by blast
  show ?thesis
    unfolding tids_unique_def s'
  proof (intro conjI ballI impI)
    fix i assume "i \<in> {..<MAX_THREADS}"
    then show "tid (threads (s\<lparr>threads := (threads s)[t := (threads s ! t)
                          \<lparr>tid := next_tid s, state := T_RUNNABLE, start_routine := f,
                           arg := a, retval := 0, joined_tid := - 1\<rparr>],
                    next_tid := next_tid s + 1\<rparr>) ! i)
        < next_tid (s\<lparr>threads := (threads s)[t := (threads s ! t)
                          \<lparr>tid := next_tid s, state := T_RUNNABLE, start_routine := f,
                           arg := a, retval := 0, joined_tid := - 1\<rparr>],
                    next_tid := next_tid s + 1\<rparr>)"
      using lt [of i] assms(2) by (cases "i = t") auto
  next
    fix j i
    assume j: "j \<in> {..<MAX_THREADS}" and i: "i \<in> {..<j}"
      and e: "tid (threads (s\<lparr>threads := (threads s)[t := (threads s ! t)
                          \<lparr>tid := next_tid s, state := T_RUNNABLE, start_routine := f,
                           arg := a, retval := 0, joined_tid := - 1\<rparr>],
                    next_tid := next_tid s + 1\<rparr>) ! i)
          = tid (threads (s\<lparr>threads := (threads s)[t := (threads s ! t)
                          \<lparr>tid := next_tid s, state := T_RUNNABLE, start_routine := f,
                           arg := a, retval := 0, joined_tid := - 1\<rparr>],
                    next_tid := next_tid s + 1\<rparr>) ! j)"
    have b: "i < j" "j < MAX_THREADS" "i < MAX_THREADS" using i j by auto
    have "i \<noteq> t \<and> j \<noteq> t"
      using e b lt [of i] lt [of j] assms(2) by (auto simp: nth_list_update split: if_splits)
    then show "state (threads (s\<lparr>threads := (threads s)[t := (threads s ! t)
                          \<lparr>tid := next_tid s, state := T_RUNNABLE, start_routine := f,
                           arg := a, retval := 0, joined_tid := - 1\<rparr>],
                    next_tid := next_tid s + 1\<rparr>) ! j) = T_UNUSED"
      using e b dup [of j i] assms(2) by (simp add: nth_list_update)
  qed
qed

lemma tids_unique_states:
  assumes "tids_unique s" "length ts = MAX_THREADS" "length (threads s) = MAX_THREADS"
    and "\<And>i. i < MAX_THREADS \<Longrightarrow> tid (ts ! i) = tid (threads s ! i)"
    and "\<And>i. i < MAX_THREADS \<Longrightarrow> state (ts ! i) \<noteq> state (threads s ! i) \<Longrightarrow>
            (\<forall>k<i. tid (threads s ! k) \<noteq> tid (threads s ! i))"
  shows "tids_unique (s\<lparr>threads := ts\<rparr>)"
proof -
  have a: "\<And>i. i < MAX_THREADS \<Longrightarrow> tid (threads s ! i) < next_tid s"
    and d: "\<And>i j. j < MAX_THREADS \<Longrightarrow> i < j \<Longrightarrow> tid (threads s ! i) = tid (threads s ! j)
      \<Longrightarrow> state (threads s ! j) = T_UNUSED"
    using assms(1) unfolding tids_unique_def by blast+
  have "state (ts ! j) = T_UNUSED"
    if "j < MAX_THREADS" "i < j" "tid (ts ! i) = tid (ts ! j)" for i j
  proof -
    have e: "tid (threads s ! i) = tid (threads s ! j)"
      using that assms(4) [of i] assms(4) [of j] by simp
    then have "state (threads s ! j) = T_UNUSED" using d that by blast
    moreover have "state (ts ! j) = state (threads s ! j)"
      using assms(5) [OF that(1)] e that(2) by blast
    ultimately show ?thesis by simp
  qed
  then show ?thesis
    using a assms(4) unfolding tids_unique_def by simp
qed

lemma tids_unique_wake:
  assumes "tids_unique s" "length (threads s) = MAX_THREADS"
  shows "tids_unique (s\<lparr>threads := wake (threads s) w\<rparr>)"
proof (rule tids_unique_states [OF assms(1) _ assms(2)])
  show "length (wake (threads s) w) = MAX_THREADS" using assms(2) by simp
  show "tid (wake (threads s) w ! i) = tid (threads s ! i)" for i
    using tid_wake [OF assms(2)] .
  show "\<forall>k<i. tid (threads s ! k) \<noteq> tid (threads s ! i)"
    if "i < MAX_THREADS" "state (wake (threads s) w ! i) \<noteq> state (threads s ! i)" for i
    using wake_cases [of "threads s" w] that assms(2)
    by (auto simp: nth_list_update split: if_splits)
qed

lemma tids_unique_schedule:
  assumes "tids_unique s" "table_ok s" "state (cur s) \<noteq> T_UNUSED"
  shows "tids_unique (thread_schedule s)"
proof (cases "find_runnable_thread s")
  case None
  then show ?thesis using assms(1) by (simp add: thread_schedule_def)
next
  case (Some n)
  have l: "length (threads s) = MAX_THREADS" "current_thread s < MAX_THREADS"
    using assms(2) by (simp_all add: table_ok_def)
  have n: "n < MAX_THREADS" "state (threads s ! n) = T_RUNNABLE"
    using find_runnable_thread_Some [OF assms(2) Some] by simp_all
  have u: "tids_unique (s\<lparr>threads := threads (thread_schedule s)\<rparr>)"
  proof (rule tids_unique_states [OF assms(1) _ l(1)])
    show "length (threads (thread_schedule s)) = MAX_THREADS"
      using table_ok_thread_schedule [OF assms(2)] by (simp add: table_ok_def)
    show "tid (threads (thread_schedule s) ! i) = tid (threads s ! i)" if "i < MAX_THREADS" for i
      using thread_schedule_nth(2) [OF assms(2) Some that] .
    show "\<forall>k<i. tid (threads s ! k) \<noteq> tid (threads s ! i)"
      if i: "i < MAX_THREADS" and d: "state (threads (thread_schedule s) ! i) \<noteq> state (threads s ! i)" for i
    proof -
      have "state (threads s ! i) \<noteq> T_UNUSED"
        using d thread_schedule_nth(1) [OF assms(2) Some i] n(2) assms(3)
        by (auto simp: cur_def split: if_splits)
      then show ?thesis using tids_unique_first [OF assms(1) i] by simp
    qed
  qed
  have "next_tid (thread_schedule s) = next_tid s"
    using Some by (simp add: thread_schedule_def Let_def set_cur_def)
  then show ?thesis using u by (simp add: tids_unique_def)
qed

lemma cond_signal_threads:
  assumes "cond_signal s c = Some (s', c')" "wait_count c \<noteq> 0"
  shows "threads s' = wake (threads s) (wait_queue c ! 0)"
  using assms by (auto simp: cond_signal_def wake_first_def Let_def split: if_splits)

lemma sem_post_threads:
  assumes "sem_post s sem = Some (s', sem')" "0 < wait_count sem"
  shows "threads s' = wake (threads s) (wait_queue sem ! 0)"
  using assms by (auto simp: sem_post_def wake_first_def Let_def split: if_splits)

lemma mutex_unlock_threads:
  assumes "mutex_unlock s m = Some (s', m')" "owner_tid m = tid (cur s)" "0 < wait_count m"
  shows "threads s' = wake (threads s) (wait_queue m ! 0)"
  using assms by (auto simp: mutex_unlock_def wake_first_def Let_def split: if_splits)

text \<open>
  Claim C10. The tid \<open>w\<close> read from the head of a wait queue is looked up by tid alone,
  whatever the state of the slot. When slot \<open>j\<close> carries \<open>w\<close> and is the first slot to
  do so, the wake of \<^verbatim>\<open>cond_signal\<close>, \<^verbatim>\<open>sem_post\<close> and \<^verbatim>\<open>mutex_unlock\<close> leaves
  it RUNNABLE, a zombie included. The table is left as it was only if no slot carries
  the tid. In a table with unique tids (\<open>tids_unique\<close>, which \<^verbatim>\<open>thread_init\<close>
  establishes and \<^verbatim>\<open>thread_create\<close>, the scheduler and the wake preserve) every slot
  in a state other than UNUSED is the first to carry its tid, and is RUNNABLE after the
  wake of its tid.
\<close>
theorem wake_of_dequeued_tid:
  assumes "j < MAX_THREADS" and "tid (threads s ! j) = w" and "\<forall>i<j. tid (threads s ! i) \<noteq> w"
    and "length (threads s) = MAX_THREADS"
  shows "wake (threads s) w = (threads s)[j := (threads s ! j)\<lparr>state := T_RUNNABLE\<rparr>]
    \<and> state (wake (threads s) w ! j) = T_RUNNABLE
    \<and> (wait_count c \<noteq> 0 \<and> wait_queue c ! 0 = w \<and> cond_signal s c = Some (s1, c1) \<longrightarrow>
         state (threads s1 ! j) = T_RUNNABLE)
    \<and> (0 < wait_count sem \<and> wait_queue sem ! 0 = w \<and> sem_post s sem = Some (s2, sem2) \<longrightarrow>
         state (threads s2 ! j) = T_RUNNABLE)
    \<and> (0 < wait_count m \<and> wait_queue m ! 0 = w \<and> owner_tid m = tid (cur s)
         \<and> mutex_unlock s m = Some (s3, m3) \<longrightarrow>
         state (threads s3 ! j) = T_RUNNABLE)
    \<and> (wake (threads s) v \<noteq> threads s \<longrightarrow> (\<exists>i<MAX_THREADS. tid (threads s ! i) = v))
    \<and> ((\<forall>i<MAX_THREADS. tid (threads s ! i) \<noteq> v) \<longrightarrow> wake (threads s) v = threads s)
    \<and> (tids_unique s \<and> k < MAX_THREADS \<and> state (threads s ! k) \<noteq> T_UNUSED \<longrightarrow>
         state (wake (threads s) (tid (threads s ! k)) ! k) = T_RUNNABLE)"
proof -
  have 1: "wake (threads s) w = (threads s)[j := (threads s ! j)\<lparr>state := T_RUNNABLE\<rparr>]"
    using wake_first_match [OF assms(1,2,3)] .
  then have 2: "state (wake (threads s) w ! j) = T_RUNNABLE"
    using assms(1,4) by simp
  have 3: "wait_count c \<noteq> 0 \<and> wait_queue c ! 0 = w \<and> cond_signal s c = Some (s1, c1) \<longrightarrow>
         state (threads s1 ! j) = T_RUNNABLE"
    using 2 cond_signal_threads [of s c s1 c1] by auto
  have 4: "0 < wait_count sem \<and> wait_queue sem ! 0 = w \<and> sem_post s sem = Some (s2, sem2) \<longrightarrow>
         state (threads s2 ! j) = T_RUNNABLE"
    using 2 sem_post_threads [of s sem s2 sem2] by auto
  have 5: "0 < wait_count m \<and> wait_queue m ! 0 = w \<and> owner_tid m = tid (cur s)
         \<and> mutex_unlock s m = Some (s3, m3) \<longrightarrow>
         state (threads s3 ! j) = T_RUNNABLE"
    using 2 mutex_unlock_threads [of s m s3 m3] by auto
  have 6: "wake (threads s) v \<noteq> threads s \<longrightarrow> (\<exists>i<MAX_THREADS. tid (threads s ! i) = v)"
    using wake_no_match [of "threads s" v] by blast
  have 7: "(\<forall>i<MAX_THREADS. tid (threads s ! i) \<noteq> v) \<longrightarrow> wake (threads s) v = threads s"
    using wake_no_match [of "threads s" v] by blast
  have 8: "tids_unique s \<and> k < MAX_THREADS \<and> state (threads s ! k) \<noteq> T_UNUSED \<longrightarrow>
         state (wake (threads s) (tid (threads s ! k)) ! k) = T_RUNNABLE"
  proof (intro impI, elim conjE)
    assume u: "tids_unique s" and k: "k < MAX_THREADS" and l: "state (threads s ! k) \<noteq> T_UNUSED"
    have "wake (threads s) (tid (threads s ! k))
        = (threads s)[k := (threads s ! k)\<lparr>state := T_RUNNABLE\<rparr>]"
      using wake_first_match [OF k refl] tids_unique_first [OF u k l] by simp
    then show "state (wake (threads s) (tid (threads s ! k)) ! k) = T_RUNNABLE"
      using k assms(4) by simp
  qed
  from 1 2 3 4 5 6 7 8 show ?thesis by blast
qed

lemma demo_wakes:
  "cond_signal demo_sys demo_cond \<noteq> None"
  "sem_post demo_sys demo_sem \<noteq> None"
  "mutex_unlock demo_sys demo_owned_mutex \<noteq> None"
  "wait_queue demo_cond ! 0 = 3" "wait_queue demo_sem ! 0 = 3" "wait_queue demo_owned_mutex ! 0 = 3"
  "owner_tid demo_owned_mutex = tid (cur demo_sys)"
  "tid (threads demo_sys ! 3) = 3"
  "list_all (\<lambda>t. tid t \<noteq> 3) (take 3 (threads demo_sys))"
  "list_all (\<lambda>t. tid t \<noteq> 9) (threads demo_sys)"
  by code_simp+

lemma two_sys_tids:
  "tid (threads two_sys ! 1) = 1" "tid (threads two_sys ! 0) \<noteq> 1"
  by code_simp+

theorem wake_of_dequeued_tid_witness:
  "state (threads demo_sys ! 3) = T_ZOMBIE
   \<and> (\<exists>s1 c1. cond_signal demo_sys demo_cond = Some (s1, c1) \<and> state (threads s1 ! 3) = T_RUNNABLE)
   \<and> (\<exists>s2 c2. sem_post demo_sys demo_sem = Some (s2, c2) \<and> state (threads s2 ! 3) = T_RUNNABLE)
   \<and> (\<exists>s3 c3. mutex_unlock demo_sys demo_owned_mutex = Some (s3, c3)
         \<and> state (threads s3 ! 3) = T_RUNNABLE)
   \<and> wake (threads demo_sys) 9 = threads demo_sys
   \<and> tids_unique two_sys \<and> state (threads two_sys ! 1) \<noteq> T_UNUSED
   \<and> state (wake (threads two_sys) (tid (threads two_sys ! 1)) ! 1) = T_RUNNABLE"
proof -
  have z: "length (threads zero_sys) = MAX_THREADS" "length (threads boot_sys) = MAX_THREADS"
    by (simp_all add: zero_sys_def boot_sys_def thread_init_def Let_def)
  have "thread_create boot_sys 7 0 \<noteq> None"
    by (simp add: thread_create_def boot_sys_def thread_init_def zero_sys_def Let_def INT_MAX_def
          split: option.splits)
  then obtain s' r where cr: "thread_create boot_sys 7 0 = Some (s', r)" by fastforce
  then have "two_sys = s'" by (simp add: two_sys_def)
  moreover have "tids_unique boot_sys"
    using tids_unique_init [OF z(1)] by (simp add: boot_sys_def)
  ultimately have u: "tids_unique two_sys"
    using tids_unique_create [OF _ z(2) cr] by simp
  have k: "(1::nat) < MAX_THREADS" "state (threads two_sys ! 1) \<noteq> T_UNUSED"
    using two_sys_facts(4) by (simp_all add: MAX_THREADS_def)
  have j: "(3::nat) < MAX_THREADS" "length (threads demo_sys) = MAX_THREADS"
    by (simp_all add: MAX_THREADS_def demo_sys_def)
  have f: "\<forall>i<3. tid (threads demo_sys ! i) \<noteq> 3"
    using demo_wakes(9) j(2) by (simp add: list_all_length MAX_THREADS_def)
  have n: "\<forall>i<MAX_THREADS. tid (threads demo_sys ! i) \<noteq> 9"
    using demo_wakes(10) j(2) by (simp add: list_all_length)
  have w: "wait_count demo_cond \<noteq> 0" "0 < wait_count demo_sem" "0 < wait_count demo_owned_mutex"
    by (simp_all add: demo_cond_def demo_sem_def demo_owned_mutex_def)
  obtain s1 c1 s2 c2 s3 c3 where r: "cond_signal demo_sys demo_cond = Some (s1, c1)"
    "sem_post demo_sys demo_sem = Some (s2, c2)"
    "mutex_unlock demo_sys demo_owned_mutex = Some (s3, c3)"
    using demo_wakes(1-3) by fastforce
  note t = wake_of_dequeued_tid [OF j(1) demo_wakes(8) f j(2), of demo_cond s1 c1 demo_sem s2 c2
        demo_owned_mutex s3 c3 9 1]
  have l2: "length (threads two_sys) = MAX_THREADS"
    using two_sys_facts(1) by (simp add: MAX_THREADS_def)
  have f2: "tid (threads two_sys ! 1) = 1" "\<forall>i<1. tid (threads two_sys ! i) \<noteq> 1"
    using two_sys_tids by simp_all
  have "state (wake (threads two_sys) (tid (threads two_sys ! 1)) ! 1) = T_RUNNABLE"
    using wake_of_dequeued_tid [OF k(1) f2(1) f2(2) l2, of demo_cond s1 c1 demo_sem s2 c2
        demo_owned_mutex s3 c3 9 1] u k by blast
  then show ?thesis
    using t r w n demo_wakes(4-7) demo_wake_states(3) u k(2) by simp
qed

subsection \<open>One RUNNING thread at the suspension points\<close>

lemma one_running_iff:
  "table_ok s \<Longrightarrow> one_running s \<longleftrightarrow> no_other_running s \<and> state (cur s) = T_RUNNING"
  by (auto simp: one_running_def no_other_running_def cur_def table_ok_def)

lemma inv_run_set_cur: "inv_run s \<Longrightarrow> inv_run (set_cur s f)"
  by (auto simp: inv_run_def no_other_running_def set_cur_def table_ok_def)

lemma inv_run_update:
  assumes "inv_run s" "state x \<noteq> T_RUNNING" "threads s' = (threads s)[k := x]"
    "current_thread s' = current_thread s"
  shows "inv_run s'"
proof -
  have "state (threads s' ! i) \<noteq> T_RUNNING" if "i < MAX_THREADS" "i \<noteq> current_thread s'" for i
  proof (cases "i = k")
    case True
    then show ?thesis using that assms by (simp add: inv_run_def table_ok_def)
  next
    case False
    then show ?thesis using that assms by (simp add: inv_run_def no_other_running_def)
  qed
  then show ?thesis
    using assms by (simp add: inv_run_def no_other_running_def table_ok_def)
qed

lemma inv_run_wake:
  assumes "inv_run s"
  shows "inv_run (s\<lparr>threads := wake (threads s) w\<rparr>)"
proof -
  consider "wake (threads s) w = threads s"
    | j where "wake (threads s) w = (threads s)[j := (threads s ! j)\<lparr>state := T_RUNNABLE\<rparr>]"
    using wake_cases [of "threads s" w] by blast
  then show ?thesis
  proof cases
    case 1
    then show ?thesis using assms by (simp add: inv_run_def no_other_running_def table_ok_def)
  next
    case (2 j)
    show ?thesis
      by (rule inv_run_update [OF assms, of "(threads s ! j)\<lparr>state := T_RUNNABLE\<rparr>" _ j])
         (simp_all add: 2)
  qed
qed

lemma inv_run_wake_first:
  assumes "inv_run s" "wake_first s q = Some (s', q')"
  shows "inv_run s'"
  using assms inv_run_wake
  by (auto simp: wake_first_def Let_def split: if_splits)

lemma inv_sched_schedule:
  assumes "inv_run s"
  shows "inv_sched (thread_schedule s)"
proof (cases "find_runnable_thread s")
  case None
  have ok: "table_ok s" using assms by (simp add: inv_run_def)
  have e: "thread_schedule s = s" using None by (simp add: thread_schedule_def)
  have nr: "\<forall>i<MAX_THREADS. state (threads s ! i) \<noteq> T_RUNNABLE"
    using find_runnable_thread_None [OF ok] None by simp
  show ?thesis
  proof (cases "state (cur s) = T_RUNNING")
    case True
    then show ?thesis
      using assms e one_running_iff [OF ok] by (simp add: inv_sched_def inv_run_def)
  next
    case False
    then have "nothing_to_run s"
      using assms nr
      by (auto simp: nothing_to_run_def inv_run_def no_other_running_def cur_def)
    then show ?thesis using assms e by (simp add: inv_sched_def)
  qed
next
  case (Some n)
  have ok: "table_ok s" and nor: "\<forall>i<MAX_THREADS. i \<noteq> current_thread s \<longrightarrow> state (threads s ! i) \<noteq> T_RUNNING"
    using assms by (simp_all add: inv_run_def no_other_running_def)
  have o: "one_running (thread_schedule s)"
    using one_running_schedule [OF ok nor Some] .
  have ok': "table_ok (thread_schedule s)" using table_ok_thread_schedule [OF ok] .
  show ?thesis
    using o ok' one_running_iff [OF ok'] by (simp add: inv_sched_def inv_run_def)
qed

lemma inv_sched_run: "inv_sched s \<Longrightarrow> inv_run s"
  by (simp add: inv_sched_def)

lemma inv_run_init:
  assumes "length (threads s) = MAX_THREADS"
  shows "inv_run (thread_init s)"
proof -
  have "table_ok (thread_init s)"
    using assms by (simp add: table_ok_def thread_init_def Let_def MAX_THREADS_def)
  then show ?thesis
    using one_running_init [OF assms] one_running_iff by (simp add: inv_run_def)
qed

lemma inv_run_create:
  assumes "inv_run s" "thread_create s f a = Some (s', t)"
  shows "inv_run s'"
proof (cases "for_first (\<lambda>i. state (threads s ! i) = T_UNUSED) 0 MAX_THREADS")
  case None
  then show ?thesis using assms by (simp add: thread_create_def)
next
  case (Some k)
  then have "s' = s\<lparr>threads := (threads s)[k := (threads s ! k)
                          \<lparr>tid := next_tid s, state := T_RUNNABLE, start_routine := f,
                           arg := a, retval := 0, joined_tid := - 1\<rparr>],
                    next_tid := next_tid s + 1\<rparr>"
    using assms(2) by (auto simp: thread_create_def split: if_splits)
  then show ?thesis
    by (intro inv_run_update [OF assms(1), of _ _ k]) simp_all
qed

lemma inv_run_join_loop:
  assumes "inv_run s" "thread_join_loop s t jt = (s', r)"
  shows "inv_run s'" "entered r \<Longrightarrow> inv_sched s'"
proof -
  show "inv_run s'"
  proof (cases "state (threads s ! t) \<noteq> T_ZOMBIE")
    case True
    then have "s' = thread_schedule
           (set_cur (set_cur s (\<lambda>c. c\<lparr>joined_tid := jt\<rparr>)) (\<lambda>c. c\<lparr>state := T_SLEEPING\<rparr>))"
      using assms(2) by (simp add: thread_join_loop_def)
    then show ?thesis
      using inv_sched_schedule [OF inv_run_set_cur [OF inv_run_set_cur [OF assms(1)]]]
      by (simp add: inv_sched_def)
  next
    case False
    then have "s' = s\<lparr>threads := (threads s)[t := (threads s ! t)\<lparr>state := T_UNUSED, tid := 0\<rparr>]\<rparr>"
      using assms(2) by (simp add: thread_join_loop_def)
    then show ?thesis
      by (intro inv_run_update [OF assms(1), of _ _ t]) simp_all
  qed
  show "inv_sched s'" if "entered r"
  proof -
    have "state (threads s ! t) \<noteq> T_ZOMBIE"
      using that assms(2) by (auto simp: thread_join_loop_def split: if_splits)
    then have "s' = thread_schedule
           (set_cur (set_cur s (\<lambda>c. c\<lparr>joined_tid := jt\<rparr>)) (\<lambda>c. c\<lparr>state := T_SLEEPING\<rparr>))"
      using assms(2) by (simp add: thread_join_loop_def)
    then show ?thesis
      using inv_sched_schedule [OF inv_run_set_cur [OF inv_run_set_cur [OF assms(1)]]] by simp
  qed
qed

lemma inv_run_join:
  assumes "inv_run s" "thread_join s jt = (s', r)"
  shows "inv_run s'" "entered r \<Longrightarrow> inv_sched s'"
proof -
  show "inv_run s'"
    using assms inv_run_join_loop(1) [OF assms(1)]
    by (auto simp: thread_join_def split: option.splits)
  show "inv_sched s'" if "entered r"
    using assms that inv_run_join_loop(2) [OF assms(1)]
    by (auto simp: thread_join_def split: option.splits)
qed

lemma inv_sched_exit:
  assumes "inv_run s"
  shows "inv_sched (thread_exit s rv)"
proof -
  let ?s1 = "set_cur (set_cur s (\<lambda>c. c\<lparr>retval := rv\<rparr>)) (\<lambda>c. c\<lparr>state := T_ZOMBIE\<rparr>)"
  let ?g = "\<lambda>t. if state t = T_SLEEPING \<and> joined_tid t = tid (cur ?s1)
                 then t\<lparr>state := T_RUNNABLE, joined_tid := - 1\<rparr> else t"
  have i1: "inv_run ?s1" using inv_run_set_cur [OF inv_run_set_cur [OF assms]] .
  have "inv_run (?s1\<lparr>threads := map ?g (threads ?s1)\<rparr>)"
    using i1 by (auto simp: inv_run_def no_other_running_def table_ok_def)
  then show ?thesis
    using inv_sched_schedule by (simp add: thread_exit_def Let_def)
qed

lemma inv_sched_yield: "inv_run s \<Longrightarrow> inv_sched (thread_yield s)"
  using inv_sched_schedule [OF inv_run_set_cur] by (simp add: thread_yield_def)


lemma inv_sched_block: "inv_run s \<Longrightarrow> inv_sched (thread_schedule (set_cur s f))"
  using inv_sched_schedule [OF inv_run_set_cur] .

lemma inv_run_mutex_lock:
  assumes "inv_run s" "mutex_lock s m = Some (s', m', r)"
  shows "inv_run s'" "entered r \<Longrightarrow> inv_sched s'"
  using assms inv_sched_block [OF assms(1)]
  by (auto simp: mutex_lock_def inv_sched_def split: if_splits option.splits)

lemma inv_run_mutex_unlock:
  assumes "inv_run s" "mutex_unlock s m = Some (s', m')"
  shows "inv_run s'"
  using assms inv_run_wake_first [OF assms(1)]
  by (auto simp: mutex_unlock_def split: if_splits option.splits)

lemma inv_run_sem_wait:
  assumes "inv_run s" "sem_wait s sem = Some (s', sem', r)"
  shows "inv_run s'" "entered r \<Longrightarrow> inv_sched s'"
  using assms inv_sched_block [OF assms(1)]
  by (auto simp: sem_wait_def Let_def inv_sched_def split: if_splits option.splits)

lemma inv_run_sem_post:
  assumes "inv_run s" "sem_post s sem = Some (s', sem')"
  shows "inv_run s'"
  using assms inv_run_wake_first [OF assms(1)]
  by (auto simp: sem_post_def Let_def split: if_splits)

lemma inv_sched_cond_wait:
  assumes "inv_run s" "cond_wait s c m = Some (s', c', m')"
  shows "inv_sched s'"
proof -
  from assms(2) obtain s1 where u: "mutex_unlock s m = Some (s1, m')"
    and s': "s' = thread_schedule (set_cur s1 (\<lambda>t. t\<lparr>state := T_SLEEPING\<rparr>))"
    by (auto simp: cond_wait_def split: option.splits)
  show ?thesis
    unfolding s' using inv_sched_block [OF inv_run_mutex_unlock [OF assms(1) u]] .
qed

lemma inv_run_cond_signal:
  assumes "inv_run s" "cond_signal s c = Some (s', c')"
  shows "inv_run s'"
  using assms inv_run_wake_first [OF assms(1)]
  by (auto simp: cond_signal_def split: if_splits)

lemma inv_run_cond_broadcast:
  assumes "inv_run s" "cond_broadcast s c = Some (s', c')"
  shows "inv_run s'"
  using assms
proof (induction s c rule: cond_broadcast.induct)
  case (1 s c)
  show ?case
  proof (cases "0 < wait_count c")
    case False
    then show ?thesis using "1.prems" by (simp add: cond_broadcast.simps [of s c])
  next
    case True
    then obtain s1 c1 where w: "wake_first s c = Some (s1, c1)"
      and b: "cond_broadcast s1 c1 = Some (s', c')"
      using "1.prems"(2) by (auto simp: cond_broadcast.simps [of s c] split: option.splits)
    show ?thesis
      using "1.IH" [OF True w refl inv_run_wake_first [OF "1.prems"(1) w] b] .
  qed
qed

lemma inv_run_send_loop:
  assumes "inv_run s" "send_loop s ch d = Some (s', ch', r)"
  shows "inv_run s'" "entered r \<Longrightarrow> inv_sched s'"
proof -
  have "inv_run s' \<and> (entered r \<longrightarrow> inv_sched s')"
  proof (cases "count ch = capacity ch")
    case True
    then obtain c1 m1 where "cond_wait s (not_full ch) (lock ch) = Some (s', c1, m1)"
      using assms(2) by (auto simp: send_loop_def split: Option.bind_splits)
    then show ?thesis using inv_sched_cond_wait [OF assms(1)] by (simp add: inv_sched_def)
  next
    case False
    then obtain s1 c1 m2 where sg: "cond_signal s (not_empty ch) = Some (s1, c1)"
      and ul: "mutex_unlock s1 (lock ch) = Some (s', m2)" and r: "r = Return 0"
      using assms(2) by (auto simp: send_loop_def split: Option.bind_splits if_splits)
    show ?thesis
      using inv_run_mutex_unlock [OF inv_run_cond_signal [OF assms(1) sg] ul] r by simp
  qed
  then show "inv_run s'" "entered r \<Longrightarrow> inv_sched s'" by simp_all
qed

lemma inv_run_send_locked:
  assumes "inv_run s" "send_locked s ch d = Some (s', ch', r)"
  shows "inv_run s'" "entered r \<Longrightarrow> inv_sched s'"
proof -
  have "inv_run s' \<and> (entered r \<longrightarrow> inv_sched s')"
  proof (cases "closed ch \<noteq> 0")
    case True
    then obtain m1 where "mutex_unlock s (lock ch) = Some (s', m1)" "r = Return (- 1)"
      using assms(2) by (auto simp: send_locked_def split: Option.bind_splits)
    then show ?thesis using inv_run_mutex_unlock [OF assms(1)] by simp
  next
    case False
    then have "send_loop s ch d = Some (s', ch', r)" using assms(2) by (simp add: send_locked_def)
    then show ?thesis using inv_run_send_loop [OF assms(1)] by blast
  qed
  then show "inv_run s'" "entered r \<Longrightarrow> inv_sched s'" by simp_all
qed

lemma inv_run_channel_send:
  assumes "inv_run s" "channel_send s ch d pc = Some (s', ch', r)"
  shows "inv_run s'" "entered r \<Longrightarrow> inv_sched s'"
proof -
  from assms(2) obtain s1 m1 r1 where lk: "mutex_lock s (lock ch) = Some (s1, m1, r1)"
    and rest: "(case r1 of Suspend x \<Rightarrow> Some (s1, ch\<lparr>lock := m1\<rparr>, Suspend pc)
                | Return x \<Rightarrow> send_locked s1 (ch\<lparr>lock := m1\<rparr>) d) = Some (s', ch', r)"
    by (auto simp: channel_send_def split: Option.bind_splits)
  have "inv_run s' \<and> (entered r \<longrightarrow> inv_sched s')"
  proof (cases r1)
    case (Return x)
    then have "send_locked s1 (ch\<lparr>lock := m1\<rparr>) d = Some (s', ch', r)" using rest by simp
    then show ?thesis
      using inv_run_send_locked [OF inv_run_mutex_lock(1) [OF assms(1) lk]] by blast
  next
    case (Suspend x)
    then have "s' = s1" "entered r1" using rest by auto
    then show ?thesis
      using inv_run_mutex_lock [OF assms(1) lk] by simp
  qed
  then show "inv_run s'" "entered r \<Longrightarrow> inv_sched s'" by simp_all
qed

lemma inv_run_recv_loop:
  assumes "inv_run s" "recv_loop s ch = Some (s', ch', r)"
  shows "inv_run s'" "entered r \<Longrightarrow> inv_sched s'"
proof -
  have "inv_run s' \<and> (entered r \<longrightarrow> inv_sched s')"
  proof (cases "count ch = 0")
    case True
    show ?thesis
    proof (cases "closed ch \<noteq> 0")
      case True
      with \<open>count ch = 0\<close> obtain m1 where "mutex_unlock s (lock ch) = Some (s', m1)"
        "r = Return (- 1, None)"
        using assms(2) by (auto simp: recv_loop_def split: Option.bind_splits)
      then show ?thesis using inv_run_mutex_unlock [OF assms(1)] by simp
    next
      case False
      with \<open>count ch = 0\<close> obtain c1 m1 where
        "cond_wait s (not_empty ch) (lock ch) = Some (s', c1, m1)"
        using assms(2) by (auto simp: recv_loop_def split: Option.bind_splits)
      then show ?thesis using inv_sched_cond_wait [OF assms(1)] by (simp add: inv_sched_def)
    qed
  next
    case False
    then obtain s1 c1 m2 where sg: "cond_signal s (not_full ch) = Some (s1, c1)"
      and ul: "mutex_unlock s1 (lock ch) = Some (s', m2)"
      and r: "r = Return (0, Some (buffer ch ! nat (read_pos ch)))"
      using assms(2) by (auto simp: recv_loop_def split: Option.bind_splits if_splits)
    show ?thesis
      using inv_run_mutex_unlock [OF inv_run_cond_signal [OF assms(1) sg] ul] r by simp
  qed
  then show "inv_run s'" "entered r \<Longrightarrow> inv_sched s'" by simp_all
qed

lemma inv_run_channel_recv:
  assumes "inv_run s" "channel_recv s ch pc = Some (s', ch', r)"
  shows "inv_run s'" "entered r \<Longrightarrow> inv_sched s'"
proof -
  from assms(2) obtain s1 m1 r1 where lk: "mutex_lock s (lock ch) = Some (s1, m1, r1)"
    and rest: "(case r1 of Suspend x \<Rightarrow> Some (s1, ch\<lparr>lock := m1\<rparr>, Suspend pc)
                | Return x \<Rightarrow> recv_loop s1 (ch\<lparr>lock := m1\<rparr>)) = Some (s', ch', r)"
    by (auto simp: channel_recv_def split: Option.bind_splits)
  have "inv_run s' \<and> (entered r \<longrightarrow> inv_sched s')"
  proof (cases r1)
    case (Return x)
    then have "recv_loop s1 (ch\<lparr>lock := m1\<rparr>) = Some (s', ch', r)" using rest by simp
    then show ?thesis
      using inv_run_recv_loop [OF inv_run_mutex_lock(1) [OF assms(1) lk]] by blast
  next
    case (Suspend x)
    then have "s' = s1" "entered r1" using rest by auto
    then show ?thesis
      using inv_run_mutex_lock [OF assms(1) lk] by simp
  qed
  then show "inv_run s'" "entered r \<Longrightarrow> inv_sched s'" by simp_all
qed

lemma inv_run_channel_close:
  assumes "inv_run s" "channel_close s ch = Some (s', ch', r)"
  shows "inv_run s'" "entered r \<Longrightarrow> inv_sched s'"
proof -
  from assms(2) obtain s1 m1 r1 where lk: "mutex_lock s (lock ch) = Some (s1, m1, r1)"
    and rest: "(case r1 of Suspend x \<Rightarrow> Some (s1, ch\<lparr>lock := m1\<rparr>, Suspend At_lock)
                | Return x \<Rightarrow>
                    do { (s2, c2) \<leftarrow> cond_broadcast s1 (not_empty ch);
                         (s3, c3) \<leftarrow> cond_broadcast s2 (not_full ch);
                         (s4, m4) \<leftarrow> mutex_unlock s3 m1;
                         Some (s4, ch\<lparr>closed := 1, not_empty := c2, not_full := c3, lock := m4\<rparr>,
                               Return ()) }) = Some (s', ch', r)"
    by (auto simp: channel_close_def split: Option.bind_splits)
  note i1 = inv_run_mutex_lock [OF assms(1) lk]
  have "inv_run s' \<and> (entered r \<longrightarrow> inv_sched s')"
  proof (cases r1)
    case (Return x)
    then obtain s2 c2 s3 c3 m4 where b1: "cond_broadcast s1 (not_empty ch) = Some (s2, c2)"
      and b2: "cond_broadcast s2 (not_full ch) = Some (s3, c3)"
      and ul: "mutex_unlock s3 m1 = Some (s', m4)" and r: "r = Return ()"
      using rest by (auto split: Option.bind_splits)
    show ?thesis
      using inv_run_mutex_unlock [OF inv_run_cond_broadcast
          [OF inv_run_cond_broadcast [OF i1(1) b1] b2] ul] r by simp
  next
    case (Suspend x)
    then have "s' = s1" "entered r1" using rest by auto
    then show ?thesis using i1 by simp
  qed
  then show "inv_run s'" "entered r \<Longrightarrow> inv_sched s'" by simp_all
qed

lemma inv_run_call:
  assumes "inv_run s" "call_sys c s = Some (s', b)"
  shows "inv_run s' \<and> (b \<longrightarrow> inv_sched s')"
proof (cases c)
  case (Thread_create f a)
  then show ?thesis using assms inv_run_create [OF assms(1)] by auto
next
  case (Thread_join t)
  then show ?thesis using assms inv_run_join [OF assms(1)] by (auto split: prod.splits)
next
  case (Thread_join_again t jt)
  then show ?thesis using assms inv_run_join_loop [OF assms(1)] by (auto split: prod.splits)
next
  case (Thread_exit rv)
  then show ?thesis using assms inv_sched_exit [OF assms(1)] by (auto simp: inv_sched_def)
next
  case Thread_yield
  then show ?thesis using assms inv_sched_yield [OF assms(1)] by (auto simp: inv_sched_def)
next
  case Thread_schedule
  then show ?thesis using assms inv_sched_schedule [OF assms(1)] by (auto simp: inv_sched_def)
next
  case (Mutex_lock m)
  then show ?thesis using assms inv_run_mutex_lock [OF assms(1)] by auto
next
  case (Mutex_unlock m)
  then show ?thesis using assms inv_run_mutex_unlock [OF assms(1)] by auto
next
  case (Sem_wait sem)
  then show ?thesis using assms inv_run_sem_wait [OF assms(1)] by auto
next
  case (Sem_post sem)
  then show ?thesis using assms inv_run_sem_post [OF assms(1)] by auto
next
  case (Cond_wait cv m)
  then obtain c' m' where "cond_wait s cv m = Some (s', c', m')" using assms(2) by auto
  then show ?thesis using inv_sched_cond_wait [OF assms(1)] by (simp add: inv_sched_def)
next
  case (Cond_signal cv)
  then show ?thesis using assms inv_run_cond_signal [OF assms(1)] by auto
next
  case (Cond_broadcast cv)
  then show ?thesis using assms inv_run_cond_broadcast [OF assms(1)] by auto
next
  case (Channel_send ch d pc)
  then show ?thesis using assms inv_run_channel_send [OF assms(1)] by auto
next
  case (Channel_recv ch pc)
  then show ?thesis using assms inv_run_channel_recv [OF assms(1)] by auto
next
  case (Channel_close ch)
  then show ?thesis using assms inv_run_channel_close [OF assms(1)] by auto
qed

lemma inv_run_calls:
  assumes "inv_run s" "b \<longrightarrow> inv_sched s" "calls cs (s, b) = Some (s', b')"
  shows "inv_run s' \<and> (b' \<longrightarrow> inv_sched s')"
  using assms
proof (induction cs arbitrary: s b)
  case Nil
  then show ?case by simp
next
  case (Cons c cs)
  from Cons.prems(3) obtain s1 b1 where c: "call_sys c s = Some (s1, b1)"
    and r: "calls cs (s1, b1) = Some (s', b')"
    by (auto split: option.splits)
  have "inv_run s1 \<and> (b1 \<longrightarrow> inv_sched s1)" using inv_run_call [OF Cons.prems(1) c] .
  then show ?case using Cons.IH [OF _ _ r] by blast
qed


lemma one_running_yield_run:
  assumes "inv_run s"
  shows "one_running (thread_yield s)"
proof -
  let ?s = "set_cur s (\<lambda>c. c\<lparr>state := T_RUNNABLE\<rparr>)"
  have ok: "table_ok s" using assms by (simp add: inv_run_def)
  have l: "length (threads s) = MAX_THREADS" "current_thread s < MAX_THREADS"
    using ok by (simp_all add: table_ok_def)
  have i: "inv_run ?s" using inv_run_set_cur [OF assms] .
  have ok': "table_ok ?s" and nor: "\<forall>i<MAX_THREADS. i \<noteq> current_thread ?s \<longrightarrow>
      state (threads ?s ! i) \<noteq> T_RUNNING"
    using i by (simp_all add: inv_run_def no_other_running_def)
  have "state (threads ?s ! current_thread s) = T_RUNNABLE"
    using l by (simp add: set_cur_def)
  then have "find_runnable_thread ?s \<noteq> None"
    using find_runnable_thread_None [OF ok'] l by auto
  then obtain n where n: "find_runnable_thread ?s = Some n" by auto
  show ?thesis
    unfolding thread_yield_def using one_running_schedule [OF ok' nor n] .
qed

text \<open>
  Claim C3 says that exactly one TCB is RUNNING, the current one, whenever
  \<^verbatim>\<open>thread_schedule()\<close> has returned. That fails when nothing is RUNNABLE, as the
  two joining threads above show. What holds after \<^verbatim>\<open>thread_init\<close> and any run of
  library calls (every call of the library, on arbitrary objects): no slot other than
  the current one is RUNNING; and when the last call has entered the scheduler, exactly
  one slot is RUNNING, the current one, unless no slot at all is RUNNING or RUNNABLE.
  From every such state \<^verbatim>\<open>thread_schedule\<close> establishes the property whenever some
  slot is RUNNABLE, and otherwise returns the table as it found it; \<^verbatim>\<open>thread_yield\<close>
  always establishes it.
\<close>
theorem one_running_at_suspension:
  assumes "length (threads s0) = MAX_THREADS"
    and "calls cs (thread_init s0, False) = Some (s, b)"
  shows "one_running (thread_init s0)
    \<and> table_ok s \<and> no_other_running s
    \<and> (b \<longrightarrow> one_running s \<or> nothing_to_run s)
    \<and> ((\<exists>i<MAX_THREADS. state (threads s ! i) = T_RUNNABLE) \<longrightarrow> one_running (thread_schedule s))
    \<and> ((\<forall>i<MAX_THREADS. state (threads s ! i) \<noteq> T_RUNNABLE) \<longrightarrow> thread_schedule s = s)
    \<and> one_running (thread_yield s)"
proof -
  have i: "inv_run s" and sb: "b \<longrightarrow> inv_sched s"
    using inv_run_calls [OF inv_run_init [OF assms(1)] _ assms(2)] by simp_all
  have ok: "table_ok s" and nor: "no_other_running s" using i by (simp_all add: inv_run_def)
  have 1: "(\<exists>i<MAX_THREADS. state (threads s ! i) = T_RUNNABLE) \<longrightarrow> one_running (thread_schedule s)"
  proof
    assume "\<exists>i<MAX_THREADS. state (threads s ! i) = T_RUNNABLE"
    then have "find_runnable_thread s \<noteq> None"
      using find_runnable_thread_None [OF ok] by auto
    then obtain n where "find_runnable_thread s = Some n" by auto
    then show "one_running (thread_schedule s)"
      using one_running_schedule [OF ok] nor by (simp add: no_other_running_def)
  qed
  have 2: "(\<forall>i<MAX_THREADS. state (threads s ! i) \<noteq> T_RUNNABLE) \<longrightarrow> thread_schedule s = s"
    using find_runnable_thread_None [OF ok] by (auto simp: thread_schedule_def)
  have 3: "b \<longrightarrow> one_running s \<or> nothing_to_run s" using sb by (simp add: inv_sched_def)
  from 1 2 3 ok nor one_running_init [OF assms(1)] one_running_yield_run [OF i]
  show ?thesis by blast
qed

lemma run_demo_facts:
  "calls [Thread_create 7 0, Thread_join 1] (thread_init zero_sys, False) = Some (main_joining, True)"
  "state (threads main_joining ! 1) = T_RUNNING"
  "calls [Thread_create 7 0, Thread_join 1, Thread_join 0] (thread_init zero_sys, False)
     = Some (both_joining, True)"
  by code_simp+

theorem one_running_at_suspension_witness:
  "length (threads zero_sys) = MAX_THREADS
   \<and> calls [Thread_create 7 0, Thread_join 1] (thread_init zero_sys, False)
       = Some (main_joining, True)
   \<and> one_running (thread_init zero_sys) \<and> no_other_running main_joining
   \<and> one_running main_joining \<and> one_running (thread_yield main_joining)
   \<and> calls [Thread_create 7 0, Thread_join 1, Thread_join 0] (thread_init zero_sys, False)
       = Some (both_joining, True)
   \<and> no_other_running both_joining \<and> nothing_to_run both_joining"
proof -
  have z: "length (threads zero_sys) = MAX_THREADS"
    using two_sys_facts(6) by (simp add: MAX_THREADS_def)
  note t = one_running_at_suspension [OF z run_demo_facts(1)]
  note d = one_running_at_suspension [OF z run_demo_facts(3)]
  have "state (threads main_joining ! 1) \<noteq> T_RUNNING" if "nothing_to_run main_joining"
    using that unfolding nothing_to_run_def by (simp add: MAX_THREADS_def)
  then have "\<not> nothing_to_run main_joining"
    using run_demo_facts(2) by auto
  then have o: "one_running main_joining" using t by blast
  have "state (threads both_joining ! 1) = T_RUNNING \<longleftrightarrow> 1 = current_thread both_joining"
    if "one_running both_joining"
    using that unfolding one_running_def by (simp add: MAX_THREADS_def)
  then have "\<not> one_running both_joining"
    using both_joining_facts(1,2) by auto
  then have n: "nothing_to_run both_joining" using d by blast
  from z run_demo_facts(1,3) t d o n show ?thesis by blast
qed

end
